theory Spec2Isabelle
  imports Main "HOL-Library.Word" "HOL-Library.Signed_Division"
begin

section \<open>State-machine testing in rapid: \<open>statemachine.go\<close>\<close>

text \<open>
  A shallow embedding of \<open>statemachine.go\<close>: \<open>T.Repeat\<close>, \<open>StateMachineActions\<close>,
  \<open>stateMachine.executeAction\<close> and \<open>runAction\<close>. A Go panic is a value of type
  \<open>panicv\<close>; a function that may panic returns \<open>panicv + 'a\<close> together with the state
  reached when it returned or panicked, since deferred code reads that state.
\<close>

subsection \<open>Panic values\<close>

text \<open>
  \<open>invalidData\<close> and \<open>stopTest\<close> are the two string types of the package that are thrown
  as panics; \<open>runAction\<close> tells them apart by the type assertion \<open>r.(invalidData)\<close>.
  Every other panic value is \<open>otherPanic\<close>.
\<close>

datatype panicv = invalidData string | stopTest string | otherPanic string

fun isInvalidData :: "panicv \<Rightarrow> bool" where
  "isInvalidData (invalidData m) = True"
| "isInvalidData (stopTest m) = False"
| "isInvalidData (otherPanic m) = False"

definition actionLabel :: string where
  "actionLabel = ''action''"

definition validActionTries :: nat where
  "validActionTries = 100"

definition noValidActionsMsg :: string where
  "noValidActionsMsg = ''can't find a valid (non-skipped) action''"

subsection \<open>The entropy engine and the trial context\<close>

text \<open>
  Modelled from the spec: the type \<open>bitStream\<close> behind \<open>t.s\<close> and its methods
  \<open>beginGroup\<close> and \<open>endGroup\<close> are not in \<open>statemachine.go\<close>. The spec gives the
  interface \<open>beginGroup(label, isUserFacing) -> handle\<close>, \<open>endGroup(handle, discard)\<close>
  and a sampling primitive. The engine is a stream of raw values \<open>bits\<close> read at
  \<open>pos\<close>, and the list of the groups opened so far; the handle of a group is its index
  in that list.
\<close>

record groupInfo =
  label :: string
  standalone :: bool
  closed :: bool
  discard :: bool

record bitStream =
  bits :: "nat \<Rightarrow> nat"
  pos :: nat
  groups :: "groupInfo list"

definition beginGroup :: "string \<Rightarrow> bool \<Rightarrow> bitStream \<Rightarrow> nat \<times> bitStream" where
  "beginGroup l st s =
     (length (groups s),
      s\<lparr>groups := groups s @ [\<lparr>label = l, standalone = st, closed = False, discard = False\<rparr>]\<rparr>)"

definition endGroup :: "nat \<Rightarrow> bool \<Rightarrow> bitStream \<Rightarrow> bitStream" where
  "endGroup i d s =
     (if i < length (groups s)
      then s\<lparr>groups := (groups s)[i := (groups s ! i)\<lparr>closed := True, discard := d\<rparr>]\<rparr>
      else s)"

text \<open>
  Modelled from the spec: the sampling primitive of the engine (the choice is the
  engine's own business); it reads one raw value and reduces it to an index below \<open>n\<close>.
\<close>

definition drawIndex :: "nat \<Rightarrow> bitStream \<Rightarrow> nat \<times> bitStream" where
  "drawIndex n s = (bits s (pos s) mod n, s\<lparr>pos := pos s + 1\<rparr>)"

text \<open>
  The trial context \<open>*T\<close>: the engine \<open>s\<close>, the draw counter \<open>draws\<close> and the failure
  accumulator \<open>failed\<close> (empty when no error was recorded). The state of the system under
  test, which the Go closures capture, is carried in \<open>sut\<close>.
\<close>

record 'u T =
  s :: bitStream
  draws :: nat
  failed :: string
  sut :: 'u

text \<open>
  Modelled from the spec: \<open>T.failOnError\<close> is not in \<open>statemachine.go\<close>; it surfaces a
  pending failure of the accumulator as a fatal panic of type \<open>stopTest\<close>.
\<close>

definition failOnError :: "'u T \<Rightarrow> panicv option" where
  "failOnError t = (if failed t \<noteq> [] then Some (stopTest (failed t)) else None)"

subsection \<open>Actions and generators\<close>

text \<open>
  \<open>Func\<close> is a Go \<open>func(*T)\<close>: it returns the panic it raised, if any, and the context
  as it left it.
\<close>

record 'u StateMachineAction =
  Name :: string
  Func :: "'u T \<Rightarrow> panicv option \<times> 'u T"

definition ActionName :: "'u StateMachineAction \<Rightarrow> string" where
  "ActionName sa = Name sa"

text \<open>
  Modelled from the spec: \<open>Generator\<close>, \<open>SampledFrom\<close> and \<open>Generator.Draw\<close> are not in
  \<open>statemachine.go\<close>. A generator is either \<open>SampledFrom\<close> a catalog or an arbitrary
  generator function, which may panic. \<open>Draw\<close> produces one value and counts one draw.
\<close>

datatype ('u, 'a) Generator =
    SampledFrom "'a list"
  | GenFunc "'u T \<Rightarrow> (panicv + 'a) \<times> 'u T"

fun Draw :: "('u, 'a) Generator \<Rightarrow> 'u T \<Rightarrow> string \<Rightarrow> (panicv + 'a) \<times> 'u T" where
  "Draw (SampledFrom xs) t l =
     (if xs = [] then (Inl (otherPanic ''slice should not be empty''), t)
      else (case drawIndex (length xs) (s t) of
              (k, s1) \<Rightarrow> (Inr (xs ! k), t\<lparr>s := s1, draws := draws t + 1\<rparr>)))"
| "Draw (GenFunc f) t l =
     (case f t of
        (Inl p, t1) \<Rightarrow> (Inl p, t1)
      | (Inr v, t1) \<Rightarrow> (Inr v, t1\<lparr>draws := draws t1 + 1\<rparr>))"

subsection \<open>\<open>runAction\<close>\<close>

text \<open>
  The deferred function of \<open>runAction\<close>: \<open>d\<close> is \<open>t.draws\<close> as evaluated at the
  \<open>defer\<close> statement, \<open>t\<close> the context at the time of the panic \<open>r\<close>. An \<open>invalidData\<close>
  panic is recovered and sets the named results; any other panic is raised again.
\<close>

definition runAction_recover ::
  "nat \<Rightarrow> panicv \<Rightarrow> 'u T \<Rightarrow> (panicv + bool \<times> bool) \<times> 'u T" where
  "runAction_recover d r t =
     (if isInvalidData r then (Inr (True, draws t = d), t) else (Inl r, t))"

text \<open>The result pair is \<open>(invalid, skipped)\<close>.\<close>

definition runAction ::
  "'u T \<Rightarrow> 'u StateMachineAction \<Rightarrow> (panicv + bool \<times> bool) \<times> 'u T" where
  "runAction t action =
     (let d = draws t in
      case Func action t of
        (Some r, t1) \<Rightarrow> runAction_recover d r t1
      | (None, t1) \<Rightarrow>
          (case failOnError t1 of
             Some r \<Rightarrow> runAction_recover d r t1
           | None \<Rightarrow> (Inr (False, False), t1)))"

subsection \<open>\<open>stateMachine.executeAction\<close>\<close>

text \<open>
  The receiver \<open>sm\<close> has the single field \<open>actions\<close>, which is the argument here.
  The loop \<open>for n := 0; n < validActionTries; n++\<close>, entered at counter \<open>n\<close>. A panic
  of \<open>Draw\<close> or of \<open>runAction\<close> leaves the function at once, before \<open>endGroup\<close>; after
  the loop comes \<open>panic(stopTest(noValidActionsMsg))\<close>.
\<close>

function executeAction_from ::
  "nat \<Rightarrow> ('u, 'u StateMachineAction) Generator \<Rightarrow> 'u T \<Rightarrow> (panicv + bool) \<times> 'u T" where
  "executeAction_from n actions t =
     (if n < validActionTries then
        (case beginGroup actionLabel False (s t) of
           (i, s1) \<Rightarrow>
             (case Draw actions (t\<lparr>s := s1\<rparr>) ''action'' of
                (Inl p, t2) \<Rightarrow> (Inl p, t2)
              | (Inr action, t2) \<Rightarrow>
                  (case runAction t2 action of
                     (Inl p, t3) \<Rightarrow> (Inl p, t3)
                   | (Inr (invalid, skipped), t3) \<Rightarrow>
                       (let t4 = t3\<lparr>s := endGroup i False (s t3)\<rparr> in
                        if skipped then executeAction_from (n + 1) actions t4
                        else (Inr (\<not> invalid), t4)))))
      else (Inl (stopTest noValidActionsMsg), t))"
  by pat_completeness auto
termination
  by (relation "measure (\<lambda>(n, actions, t). validActionTries - n)") auto

definition executeAction ::
  "('u, 'u StateMachineAction) Generator \<Rightarrow> 'u T \<Rightarrow> (panicv + bool) \<times> 'u T" where
  "executeAction actions t = executeAction_from 0 actions t"

subsection \<open>\<open>StateMachineActions\<close>\<close>

text \<open>
  The object handed to \<open>StateMachineActions\<close> is seen through reflection only: its type
  name and its methods in the order of \<open>t.Method(i)\<close>. The type assertion
  \<open>v.Method(i).Interface().(func(*T))\<close> succeeds for a method value of that very type
  (\<open>ActionMethod\<close>) and fails for a method of any other signature (\<open>OtherMethod\<close>, with
  the signature as text).
\<close>

datatype 'u methodValue =
    ActionMethod "'u T \<Rightarrow> panicv option \<times> 'u T"
  | OtherMethod string

record 'u Method =
  mName :: string
  mValue :: "'u methodValue"

fun isActionMethod :: "'u Method \<Rightarrow> bool" where
  "isActionMethod m = (case mValue m of ActionMethod f \<Rightarrow> True | OtherMethod sig \<Rightarrow> False)"

text \<open>The loop over the methods, appending to \<open>actions\<close>.\<close>

fun collectActions ::
  "'u Method list \<Rightarrow> 'u StateMachineAction list \<Rightarrow> 'u StateMachineAction list" where
  "collectActions [] actions = actions"
| "collectActions (m # ms) actions =
     (case mValue m of
        ActionMethod f \<Rightarrow> collectActions ms (actions @ [\<lparr>Name = mName m, Func = f\<rparr>])
      | OtherMethod sig \<Rightarrow> collectActions ms actions)"

text \<open>
  Modelled from the spec: \<open>assertf\<close> is not in \<open>statemachine.go\<close>; a failed assertion
  rejects the configuration with a panic that carries the formatted message.
\<close>

definition assertf :: "bool \<Rightarrow> string \<Rightarrow> panicv option" where
  "assertf ok msg = (if ok then None else Some (otherPanic msg))"

definition StateMachineActions ::
  "string \<Rightarrow> 'u Method list \<Rightarrow> panicv + ('u, 'u StateMachineAction) Generator" where
  "StateMachineActions tyName ms =
     (let actions = collectActions ms [] in
      case assertf (length actions > 0)
             (''state machine of type '' @ tyName @ '' has no actions specified'') of
        Some p \<Rightarrow> Inl p
      | None \<Rightarrow> Inr (SampledFrom actions))"

subsection \<open>\<open>T.Repeat\<close>\<close>

text \<open>
  \<open>flags.steps\<close> is a Go \<open>int\<close> (64 bits). Go's \<open>/\<close> on \<open>int\<close> is the signed division
  that truncates towards zero, its result wrapped to 64 bits (the divisor here is the
  constant 2, so the division by zero that panics does not arise).
\<close>

definition goDiv :: "64 word \<Rightarrow> 64 word \<Rightarrow> 64 word" where
  "goDiv a b = word_of_int (sint a sdiv sint b)"

text \<open>
  The first statements of \<open>Repeat\<close>: \<open>steps := flags.steps\<close>, halved when
  \<open>testing.Short()\<close> holds.
\<close>

definition repeatSteps :: "64 word \<Rightarrow> bool \<Rightarrow> 64 word" where
  "repeatSteps flagsSteps short = (if short then goDiv flagsSteps 2 else flagsSteps)"

text \<open>
  The controller made by \<open>newRepeat\<close>, with its methods \<open>more\<close> and \<open>reject\<close>, is not in
  \<open>statemachine.go\<close>: it is a parameter of the model. \<open>newRepeat\<close> receives the step
  count that \<open>Repeat\<close> converts with \<open>float64(steps)\<close>; \<open>more\<close> reads the engine and
  may panic, as may \<open>reject\<close>.
\<close>

record 'r repeatOps =
  newRepeat :: "int \<Rightarrow> int \<Rightarrow> 64 word \<Rightarrow> string \<Rightarrow> 'r"
  more' :: "'r \<Rightarrow> bitStream \<Rightarrow> (panicv + bool) \<times> 'r \<times> bitStream"
  reject :: "'r \<Rightarrow> panicv + 'r"

text \<open>
  What \<open>Repeat\<close> did, in program order: a call of \<open>check\<close>, or a call of
  \<open>executeAction\<close> with its outcome. How a run ended: the loop condition became false,
  a panic left \<open>Repeat\<close>, or the model's fuel (a bound on the number of loop
  iterations looked at) ran out with the loop still going.
\<close>

datatype event = Check | Step "panicv + bool"

datatype status = Finished | Panicked panicv | OutOfFuel

type_synonym 'u checkFn = "'u T \<Rightarrow> panicv option \<times> 'u T"

text \<open>\<open>if check != nil { check(t) }\<close> followed by \<open>t.failOnError()\<close>.\<close>

definition checkAndFail ::
  "'u checkFn option \<Rightarrow> 'u T \<Rightarrow> (panicv option \<times> 'u T) \<times> event list" where
  "checkAndFail check t =
     (case check of
        None \<Rightarrow> ((failOnError t, t), [])
      | Some c \<Rightarrow>
          (case c t of
             (Some p, t1) \<Rightarrow> ((Some p, t1), [Check])
           | (None, t1) \<Rightarrow> ((failOnError t1, t1), [Check])))"

fun prepend :: "event list \<Rightarrow> status \<times> 'u T \<times> event list \<Rightarrow> status \<times> 'u T \<times> event list" where
  "prepend es (st, t, es') = (st, t, es @ es')"

fun Repeat_loop ::
  "nat \<Rightarrow> 'r repeatOps \<Rightarrow> 'r \<Rightarrow> ('u, 'u StateMachineAction) Generator \<Rightarrow>
   'u checkFn option \<Rightarrow> 'u T \<Rightarrow> status \<times> 'u T \<times> event list" where
  "Repeat_loop 0 ops r actions check t = (OutOfFuel, t, [])"
| "Repeat_loop (Suc fuel) ops r actions check t =
     (case more' ops r (s t) of
        (Inl p, r1, s1) \<Rightarrow> (Panicked p, t\<lparr>s := s1\<rparr>, [])
      | (Inr False, r1, s1) \<Rightarrow> (Finished, t\<lparr>s := s1\<rparr>, [])
      | (Inr True, r1, s1) \<Rightarrow>
          (case executeAction actions (t\<lparr>s := s1\<rparr>) of
             (Inl p, t2) \<Rightarrow> (Panicked p, t2, [Step (Inl p)])
           | (Inr True, t2) \<Rightarrow>
               (case checkAndFail check t2 of
                  ((Some p, t3), es) \<Rightarrow> (Panicked p, t3, Step (Inr True) # es)
                | ((None, t3), es) \<Rightarrow>
                    prepend (Step (Inr True) # es) (Repeat_loop fuel ops r1 actions check t3))
           | (Inr False, t2) \<Rightarrow>
               (case reject ops r1 of
                  Inl p \<Rightarrow> (Panicked p, t2, [Step (Inr False)])
                | Inr r2 \<Rightarrow>
                    prepend [Step (Inr False)] (Repeat_loop fuel ops r2 actions check t2))))"

definition Repeat ::
  "'r repeatOps \<Rightarrow> 64 word \<Rightarrow> bool \<Rightarrow> nat \<Rightarrow> ('u, 'u StateMachineAction) Generator \<Rightarrow>
   'u checkFn option \<Rightarrow> 'u T \<Rightarrow> status \<times> 'u T \<times> event list" where
  "Repeat ops flagsSteps short fuel actions check t =
     (let steps = repeatSteps flagsSteps short;
          repeat = newRepeat ops (- 1) (- 1) steps ''Repeat''
      in case checkAndFail check t of
           ((Some p, t1), es) \<Rightarrow> (Panicked p, t1, es)
         | ((None, t1), es) \<Rightarrow> prepend es (Repeat_loop fuel ops repeat actions check t1))"

section \<open>Auxiliary definitions for the proofs\<close>

text \<open>
  One pass through the body of the loop of \<open>executeAction\<close>, up to and including
  \<open>endGroup\<close>: the classification of \<open>runAction\<close> with the context after the group was
  closed, or the panic that left the function with the context as it was then.
\<close>

definition attempt ::
  "('u, 'u StateMachineAction) Generator \<Rightarrow> 'u T \<Rightarrow> (panicv + bool \<times> bool) \<times> 'u T" where
  "attempt actions t =
     (case beginGroup actionLabel False (s t) of
        (i, s1) \<Rightarrow>
          (case Draw actions (t\<lparr>s := s1\<rparr>) ''action'' of
             (Inl p, t2) \<Rightarrow> (Inl p, t2)
           | (Inr action, t2) \<Rightarrow>
               (case runAction t2 action of
                  (Inl p, t3) \<Rightarrow> (Inl p, t3)
                | (Inr r, t3) \<Rightarrow> (Inr r, t3\<lparr>s := endGroup i False (s t3)\<rparr>))))"

text \<open>
  Shapes of the trace of \<open>Repeat\<close> when a check function is given: after the opening
  \<open>Check\<close>, every successful step is followed by one \<open>Check\<close>, a rejected step by none,
  and a step that panicked ends the trace.
\<close>

fun wellChecked :: "event list \<Rightarrow> bool" where
  "wellChecked [] = True"
| "wellChecked (Step (Inr True) # Check # es) = wellChecked es"
| "wellChecked (Step (Inr False) # es) = wellChecked es"
| "wellChecked [Step (Inl p)] = True"
| "wellChecked es = False"

text \<open>
  The context after \<open>k\<close> passes through the body of the loop of \<open>executeAction\<close>.
\<close>

primrec afterSkips ::
  "nat \<Rightarrow> ('u, 'u StateMachineAction) Generator \<Rightarrow> 'u T \<Rightarrow> 'u T" where
  "afterSkips 0 actions t = t"
| "afterSkips (Suc k) actions t = snd (attempt actions (afterSkips k actions t))"

subsection \<open>Concrete inputs\<close>

text \<open>
  A fresh trial context, and four actions: one that declares itself invalid at entry,
  one that does so after one draw, one that completes, one that fails with a panic of
  its own.
\<close>

definition trial0 :: "unit T" where
  "trial0 = \<lparr>s = \<lparr>bits = (\<lambda>k. k), pos = 0, groups = []\<rparr>, draws = 0, failed = [], sut = ()\<rparr>"

definition skipAction :: "unit StateMachineAction" where
  "skipAction = \<lparr>Name = ''Skip'', Func = (\<lambda>t. (Some (invalidData ''not now''), t))\<rparr>"

definition costlyAction :: "unit StateMachineAction" where
  "costlyAction =
     \<lparr>Name = ''Costly'',
      Func = (\<lambda>t. (Some (invalidData ''not now''), t\<lparr>draws := draws t + 1\<rparr>))\<rparr>"

definition okAction :: "unit StateMachineAction" where
  "okAction = \<lparr>Name = ''Ok'', Func = (\<lambda>t. (None, t))\<rparr>"

definition faultAction :: "unit StateMachineAction" where
  "faultAction = \<lparr>Name = ''Fault'', Func = (\<lambda>t. (Some (otherPanic ''boom''), t))\<rparr>"

text \<open>
  Modelled from the spec: a controller that follows the spec's "step budget": \<open>more\<close>
  holds while steps remain and takes one, \<open>reject\<close> gives the step back.
\<close>

definition budgetOps :: "nat repeatOps" where
  "budgetOps =
     \<lparr>newRepeat = (\<lambda>minCount maxCount steps l. nat (sint steps)),
      more' = (\<lambda>r st. (Inr (0 < r), r - 1, st)),
      reject = (\<lambda>r. Inr (r + 1))\<rparr>"

text \<open>The fresh context after \<open>beginGroup\<close>, and after the draw of the only action.\<close>

definition trial0_begun :: "unit T" where
  "trial0_begun = trial0\<lparr>s := snd (beginGroup actionLabel False (s trial0))\<rparr>"

definition trial0_drawn :: "unit T" where
  "trial0_drawn = trial0_begun\<lparr>s := snd (drawIndex 1 (s trial0_begun)), draws := 1\<rparr>"

text \<open>
  The action that \<open>StateMachineActions\<close> makes of a method that passes the type
  assertion (for any other method the body given here is never used).
\<close>

definition methodAction :: "'u Method \<Rightarrow> 'u StateMachineAction" where
  "methodAction m =
     \<lparr>Name = mName m,
      Func = (case mValue m of ActionMethod f \<Rightarrow> f | OtherMethod sig \<Rightarrow> (\<lambda>t. (None, t)))\<rparr>"

text \<open>
  The reflected methods of two objects: one with two action methods among four, one
  with none.
\<close>

definition exampleMethods :: "unit Method list" where
  "exampleMethods =
     [\<lparr>mName = ''Check'', mValue = OtherMethod ''func(*T, int)''\<rparr>,
      \<lparr>mName = ''Get'', mValue = ActionMethod (Func okAction)\<rparr>,
      \<lparr>mName = ''Len'', mValue = OtherMethod ''func() int''\<rparr>,
      \<lparr>mName = ''Put'', mValue = ActionMethod (Func skipAction)\<rparr>]"

definition noActionMethods :: "unit Method list" where
  "noActionMethods =
     [\<lparr>mName = ''Len'', mValue = OtherMethod ''func() int''\<rparr>,
      \<lparr>mName = ''String'', mValue = OtherMethod ''func() string''\<rparr>]"

text \<open>
  Inputs for \<open>Repeat\<close>: a check that counts its own calls in the state under test, a
  check that passes, a check that fails, an action over a counter that completes, and a
  fresh trial context over a counter.
\<close>

definition countingCheck :: "nat checkFn" where
  "countingCheck t = (None, t\<lparr>sut := Suc (sut t)\<rparr>)"

definition passCheck :: "unit checkFn" where
  "passCheck t = (None, t)"

definition failCheck :: "unit checkFn" where
  "failCheck t = (Some (otherPanic ''invariant broken''), t)"

definition tickAction :: "nat StateMachineAction" where
  "tickAction = \<lparr>Name = ''Tick'', Func = (\<lambda>t. (None, t))\<rparr>"

definition countedTrial :: "nat T" where
  "countedTrial = \<lparr>s = \<lparr>bits = (\<lambda>k. k), pos = 0, groups = []\<rparr>, draws = 0, failed = [], sut = 0\<rparr>"

text \<open>
  The fresh context after one attempt with an action that completes, and after one
  attempt with \<open>costlyAction\<close>.
\<close>

definition trial0_stepped :: "unit T" where
  "trial0_stepped = trial0_drawn\<lparr>s := endGroup 0 False (s trial0_drawn)\<rparr>"

definition trial0_rejected :: "unit T" where
  "trial0_rejected = trial0_drawn\<lparr>draws := 2, s := endGroup 0 False (s trial0_drawn)\<rparr>"

section \<open>Properties of \<open>runAction\<close> and \<open>executeAction\<close>\<close>

declare executeAction_from.simps [simp del]

lemma executeAction_from_unfold:
  "executeAction_from n actions t =
     (if n < validActionTries then
        (case attempt actions t of
           (Inl p, t') \<Rightarrow> (Inl p, t')
         | (Inr (invalid, skipped), t4) \<Rightarrow>
             if skipped then executeAction_from (n + 1) actions t4 else (Inr (\<not> invalid), t4))
      else (Inl (stopTest noValidActionsMsg), t))"
  by (subst executeAction_from.simps)
     (simp add: attempt_def Let_def split: prod.splits sum.splits)

lemma executeAction_from_exhausted:
  "\<not> n < validActionTries \<Longrightarrow>
   executeAction_from n actions t = (Inl (stopTest noValidActionsMsg), t)"
  by (subst executeAction_from.simps) simp

lemma isInvalidData_iff: "isInvalidData p \<longleftrightarrow> (\<exists>m. p = invalidData m)"
  by (cases p) simp_all

lemma runAction_invalid:
  "Func a t = (Some (invalidData m), t1) \<Longrightarrow>
   runAction t a = (Inr (True, draws t1 = draws t), t1)"
  by (simp add: runAction_def runAction_recover_def)


lemma runAction_cases:
  assumes "runAction t a = (r, t1)"
  shows "(r = Inr (False, False) \<and> Func a t = (None, t1) \<and> failOnError t1 = None)
   \<or> (\<exists>m. r = Inr (True, draws t1 = draws t) \<and> Func a t = (Some (invalidData m), t1))
   \<or> (\<exists>p. r = Inl p \<and> \<not> isInvalidData p \<and>
         (Func a t = (Some p, t1) \<or> (Func a t = (None, t1) \<and> failOnError t1 = Some p)))"
proof -
  obtain q u where F: "Func a t = (q, u)" by (cases "Func a t")
  show ?thesis
  proof (cases q)
    case None
    show ?thesis
    proof (cases "failed u = []")
      case True
      with assms F None show ?thesis
        by (simp add: runAction_def failOnError_def)
    next
      case False
      with assms F None show ?thesis
        by (auto simp: runAction_def failOnError_def runAction_recover_def)
    qed
  next
    case (Some p)
    show ?thesis
    proof (cases "isInvalidData p")
      case True
      then obtain m where "p = invalidData m" by (auto simp: isInvalidData_iff)
      with assms F Some show ?thesis
        by (auto simp: runAction_def runAction_recover_def)
    next
      case False
      with assms F Some show ?thesis
        by (auto simp: runAction_def runAction_recover_def)
    qed
  qed
qed

text \<open>
  When every pass is skipped and costs the one draw of the action, the loop runs through
  all its remaining tries and ends in the panic after the loop.
\<close>

lemma all_skipped_from:
  assumes "\<And>t. \<exists>t'. attempt actions t = (Inr (True, True), t') \<and> draws t' = draws t + 1"
  shows "validActionTries - n = k \<Longrightarrow>
         fst (executeAction_from n actions t) = Inl (stopTest noValidActionsMsg)
       \<and> draws (snd (executeAction_from n actions t)) = draws t + k"
proof (induction k arbitrary: n t)
  case 0
  then show ?case by (simp add: executeAction_from_exhausted)
next
  case (Suc k)
  then have n: "n < validActionTries" and k: "validActionTries - (n + 1) = k" by auto
  from assms obtain t' where a: "attempt actions t = (Inr (True, True), t')"
     and d: "draws t' = draws t + 1" by blast
  have "executeAction_from n actions t = executeAction_from (n + 1) actions t'"
    using n a by (subst executeAction_from_unfold) simp
  with Suc.IH[OF k, of t'] d show ?case by simp
qed

lemma attempt_eq:
  assumes "beginGroup actionLabel False (s t) = (i, s1)"
      and "Draw actions (t\<lparr>s := s1\<rparr>) ''action'' = (Inr a, t2)"
      and "runAction t2 a = (Inr r, t3)"
  shows "attempt actions t = (Inr r, t3\<lparr>s := endGroup i False (s t3)\<rparr>)"
  using assms by (simp add: attempt_def)

lemma attempt_fault:
  assumes "beginGroup actionLabel False (s t) = (i, s1)"
      and "Draw actions (t\<lparr>s := s1\<rparr>) ''action'' = (Inr a, t2)"
      and "runAction t2 a = (Inl p, t3)"
  shows "attempt actions t = (Inl p, t3)"
  using assms by (simp add: attempt_def)

lemma Draw_SampledFrom:
  "catalog \<noteq> [] \<Longrightarrow>
   \<exists>a\<in>set catalog. Draw (SampledFrom catalog) t l =
      (Inr a, t\<lparr>s := snd (drawIndex (length catalog) (s t)), draws := draws t + 1\<rparr>)"
  by (simp add: drawIndex_def)

lemma attempt_all_skip:
  assumes ne: "catalog \<noteq> []"
      and sk: "\<forall>a\<in>set catalog. \<forall>u. \<exists>m u'. Func a u = (Some (invalidData m), u') \<and> draws u' = draws u"
  shows "\<exists>t'. attempt (SampledFrom catalog) t = (Inr (True, True), t') \<and> draws t' = draws t + 1"
proof -
  obtain i s1 where b: "beginGroup actionLabel False (s t) = (i, s1)"
    by (cases "beginGroup actionLabel False (s t)")
  from Draw_SampledFrom[OF ne, of "t\<lparr>s := s1\<rparr>" "''action''"]
  obtain a where a: "a \<in> set catalog"
    and d: "Draw (SampledFrom catalog) (t\<lparr>s := s1\<rparr>) ''action'' =
      (Inr a, t\<lparr>s := snd (drawIndex (length catalog) s1), draws := draws t + 1\<rparr>)"
    by auto
  let ?t2 = "t\<lparr>s := snd (drawIndex (length catalog) s1), draws := draws t + 1\<rparr>"
  from sk a obtain m u' where f: "Func a ?t2 = (Some (invalidData m), u')"
    and du: "draws u' = draws ?t2" by blast
  have "runAction ?t2 a = (Inr (True, True), u')"
    using runAction_invalid[OF f] du by simp
  from attempt_eq[OF b d this] du show ?thesis by simp
qed

subsection \<open>Attempts that are skipped\<close>

text \<open>
  Claim C1, against the code: an action that signals \<open>invalidData\<close> with the draw counter
  unchanged is the \<open>skipped\<close> case of \<open>runAction\<close>, and \<open>executeAction\<close> answers it with
  \<open>continue\<close>, which runs the \<open>n++\<close> of the loop. With the action \<open>skipAction\<close> as the
  only one of the catalog, the step ends in \<open>stopTest(noValidActionsMsg)\<close> after 100
  draws of the action: free retries do exhaust the budget.
\<close>

theorem free_retries_exhaust_counterexample:
  "fst (executeAction (SampledFrom [skipAction]) trial0) = Inl (stopTest noValidActionsMsg)
   \<and> draws (snd (executeAction (SampledFrom [skipAction]) trial0)) = 100"
proof -
  have "\<forall>a\<in>set [skipAction]. \<forall>u. \<exists>m u'. Func a u = (Some (invalidData m), u') \<and> draws u' = draws u"
    by (simp add: skipAction_def)
  then have "\<And>t. \<exists>t'. attempt (SampledFrom [skipAction]) t = (Inr (True, True), t')
                \<and> draws t' = draws t + 1"
    using attempt_all_skip[of "[skipAction]"] by blast
  from all_skipped_from[OF this, of 0 validActionTries trial0]
  show ?thesis by (simp add: executeAction_def validActionTries_def trial0_def)
qed

text \<open>
  Claim C1, as amended: an attempt whose action signals \<open>invalidData\<close> with the draw
  counter unchanged has its group closed and sends the loop on at counter \<open>n + 1\<close>, so
  it uses one of the \<open>validActionTries\<close> tries; and when every action of a non-empty
  catalog always signals \<open>invalidData\<close> with the draw counter unchanged, the step ends in
  \<open>stopTest(noValidActionsMsg)\<close> after exactly \<open>validActionTries\<close> draws of an action.
\<close>

theorem skipped_attempt_uses_a_try:
  "(n < validActionTries \<and> beginGroup actionLabel False (s t) = (i, s1)
      \<and> Draw actions (t\<lparr>s := s1\<rparr>) ''action'' = (Inr a, t2)
      \<and> Func a t2 = (Some (invalidData m), t3) \<and> draws t3 = draws t2
    \<longrightarrow> executeAction_from n actions t =
          executeAction_from (n + 1) actions (t3\<lparr>s := endGroup i False (s t3)\<rparr>))
   \<and> (catalog \<noteq> []
      \<and> (\<forall>a\<in>set catalog. \<forall>u. \<exists>m u'. Func a u = (Some (invalidData m), u') \<and> draws u' = draws u)
    \<longrightarrow> fst (executeAction (SampledFrom catalog) t) = Inl (stopTest noValidActionsMsg)
        \<and> draws (snd (executeAction (SampledFrom catalog) t)) = draws t + validActionTries)"
proof (rule conjI)
  show "n < validActionTries \<and> beginGroup actionLabel False (s t) = (i, s1)
      \<and> Draw actions (t\<lparr>s := s1\<rparr>) ''action'' = (Inr a, t2)
      \<and> Func a t2 = (Some (invalidData m), t3) \<and> draws t3 = draws t2
    \<longrightarrow> executeAction_from n actions t =
          executeAction_from (n + 1) actions (t3\<lparr>s := endGroup i False (s t3)\<rparr>)"
  proof (rule impI)
    assume h: "n < validActionTries \<and> beginGroup actionLabel False (s t) = (i, s1)
      \<and> Draw actions (t\<lparr>s := s1\<rparr>) ''action'' = (Inr a, t2)
      \<and> Func a t2 = (Some (invalidData m), t3) \<and> draws t3 = draws t2"
    then have "runAction t2 a = (Inr (True, True), t3)"
      using runAction_invalid[of a t2 m t3] by simp
    with h have "attempt actions t = (Inr (True, True), t3\<lparr>s := endGroup i False (s t3)\<rparr>)"
      by (simp add: attempt_eq)
    with h show "executeAction_from n actions t =
          executeAction_from (n + 1) actions (t3\<lparr>s := endGroup i False (s t3)\<rparr>)"
      by (subst executeAction_from_unfold) simp
  qed
next
  show "catalog \<noteq> []
      \<and> (\<forall>a\<in>set catalog. \<forall>u. \<exists>m u'. Func a u = (Some (invalidData m), u') \<and> draws u' = draws u)
    \<longrightarrow> fst (executeAction (SampledFrom catalog) t) = Inl (stopTest noValidActionsMsg)
        \<and> draws (snd (executeAction (SampledFrom catalog) t)) = draws t + validActionTries"
  proof (rule impI)
    assume h: "catalog \<noteq> []
      \<and> (\<forall>a\<in>set catalog. \<forall>u. \<exists>m u'. Func a u = (Some (invalidData m), u') \<and> draws u' = draws u)"
    then have "\<And>t. \<exists>t'. attempt (SampledFrom catalog) t = (Inr (True, True), t')
                 \<and> draws t' = draws t + 1"
      using attempt_all_skip by blast
    from all_skipped_from[OF this, of 0 validActionTries t]
    show "fst (executeAction (SampledFrom catalog) t) = Inl (stopTest noValidActionsMsg)
        \<and> draws (snd (executeAction (SampledFrom catalog) t)) = draws t + validActionTries"
      by (simp add: executeAction_def)
  qed
qed

theorem skipped_attempt_uses_a_try_witness:
  "executeAction_from 0 (SampledFrom [skipAction]) trial0 =
     executeAction_from (0 + 1) (SampledFrom [skipAction])
       (trial0_drawn\<lparr>s := endGroup 0 False (s trial0_drawn)\<rparr>)
   \<and> fst (executeAction (SampledFrom [skipAction]) trial0) = Inl (stopTest noValidActionsMsg)
   \<and> draws (snd (executeAction (SampledFrom [skipAction]) trial0)) = draws trial0 + validActionTries"
proof -
  have h1: "0 < validActionTries" by (simp add: validActionTries_def)
  have h2: "beginGroup actionLabel False (s trial0) = (0, s trial0_begun)"
    by (simp add: beginGroup_def trial0_def trial0_begun_def)
  have h3: "Draw (SampledFrom [skipAction]) (trial0\<lparr>s := s trial0_begun\<rparr>) ''action''
            = (Inr skipAction, trial0_drawn)"
    by (simp add: trial0_drawn_def trial0_begun_def trial0_def drawIndex_def)
  have h4: "Func skipAction trial0_drawn = (Some (invalidData ''not now''), trial0_drawn)"
    by (simp add: skipAction_def)
  have h5: "[skipAction] \<noteq> []" by simp
  have h6: "\<forall>a\<in>set [skipAction]. \<forall>u. \<exists>m u'. Func a u = (Some (invalidData m), u') \<and> draws u' = draws u"
    by (simp add: skipAction_def)
  show ?thesis
    using skipped_attempt_uses_a_try[of 0 trial0 0 "s trial0_begun" "SampledFrom [skipAction]"
        skipAction trial0_drawn "''not now''" trial0_drawn "[skipAction]"] h1 h2 h3 h4 h5 h6
    by simp
qed

lemma attempt_invalid:
  assumes "beginGroup actionLabel False (s t) = (i, s1)"
      and "Draw actions (t\<lparr>s := s1\<rparr>) ''action'' = (Inr a, t2)"
      and "Func a t2 = (Some (invalidData m), t3)"
  shows "attempt actions t = (Inr (True, draws t3 = draws t2), t3\<lparr>s := endGroup i False (s t3)\<rparr>)"
  using assms runAction_invalid[of a t2 m t3] by (simp add: attempt_eq)

subsection \<open>Attempts that turn invalid after a draw\<close>

lemma attempt_costlyAction:
  "attempt (SampledFrom [costlyAction]) trial0 =
     (Inr (True, False),
      trial0_drawn\<lparr>draws := 2, s := endGroup 0 False (s trial0_drawn)\<rparr>)"
proof -
  have b: "beginGroup actionLabel False (s trial0) = (0, s trial0_begun)"
    by (simp add: beginGroup_def trial0_def trial0_begun_def)
  have d: "Draw (SampledFrom [costlyAction]) (trial0\<lparr>s := s trial0_begun\<rparr>) ''action''
            = (Inr costlyAction, trial0_drawn)"
    by (simp add: trial0_drawn_def trial0_begun_def trial0_def drawIndex_def)
  have f: "Func costlyAction trial0_drawn = (Some (invalidData ''not now''), trial0_drawn\<lparr>draws := 2\<rparr>)"
    by (simp add: costlyAction_def trial0_drawn_def)
  from attempt_invalid[OF b d f] show ?thesis
    by (simp add: trial0_drawn_def)
qed

text \<open>
  Claim C2, against the code: \<open>costlyAction\<close> always signals \<open>invalidData\<close> after one
  draw. With it as the only action, \<open>executeAction\<close> returns \<open>false\<close> after a single
  attempt (one group opened, two draws counted: the action and its one draw); there are
  no 100 attempts and no \<open>stopTest(noValidActionsMsg)\<close>.
\<close>

theorem costly_invalid_single_attempt_counterexample:
  "fst (executeAction (SampledFrom [costlyAction]) trial0) = Inr False
   \<and> length (groups (s (snd (executeAction (SampledFrom [costlyAction]) trial0)))) = 1
   \<and> draws (snd (executeAction (SampledFrom [costlyAction]) trial0)) = 2"
proof -
  have "executeAction (SampledFrom [costlyAction]) trial0 =
        (Inr False, trial0_drawn\<lparr>draws := 2, s := endGroup 0 False (s trial0_drawn)\<rparr>)"
    unfolding executeAction_def
    by (subst executeAction_from_unfold) (simp add: attempt_costlyAction validActionTries_def)
  then show ?thesis
    by (simp add: endGroup_def trial0_drawn_def trial0_begun_def trial0_def beginGroup_def
          drawIndex_def)
qed

lemma attempt_all_costly:
  assumes ne: "catalog \<noteq> []"
      and sk: "\<forall>a\<in>set catalog. \<forall>u. \<exists>m u'. Func a u = (Some (invalidData m), u') \<and> draws u' \<noteq> draws u"
  shows "\<exists>t'. attempt (SampledFrom catalog) t = (Inr (True, False), t')"
proof -
  obtain i s1 where b: "beginGroup actionLabel False (s t) = (i, s1)"
    by (cases "beginGroup actionLabel False (s t)")
  from Draw_SampledFrom[OF ne, of "t\<lparr>s := s1\<rparr>" "''action''"]
  obtain a t2 where a: "a \<in> set catalog"
    and d: "Draw (SampledFrom catalog) (t\<lparr>s := s1\<rparr>) ''action'' = (Inr a, t2)"
    by auto
  from sk a obtain m u' where f: "Func a t2 = (Some (invalidData m), u')"
    and du: "draws u' \<noteq> draws t2" by blast
  from attempt_invalid[OF b d f] du show ?thesis by simp
qed

text \<open>
  Claim C2, as amended: an attempt whose action signals \<open>invalidData\<close> after the draw
  counter changed is not retried; its group is closed and \<open>executeAction\<close> returns
  \<open>false\<close> at once, whatever the loop counter. A non-empty catalog whose actions always
  signal \<open>invalidData\<close> after changing the draw counter yields exactly one attempt and
  the result \<open>false\<close>, not \<open>stopTest(noValidActionsMsg)\<close>. In \<open>Repeat\<close> such a step is
  rejected: the loop calls \<open>repeat.reject()\<close> on the controller, calls no check, and
  goes on (or ends with the panic of \<open>reject\<close>) from the context the attempt left.
\<close>

theorem costly_invalid_attempt_rejects_step:
  "(n < validActionTries \<and> beginGroup actionLabel False (s t) = (i, s1)
      \<and> Draw actions (t\<lparr>s := s1\<rparr>) ''action'' = (Inr a, t2)
      \<and> Func a t2 = (Some (invalidData m), t3) \<and> draws t3 \<noteq> draws t2
    \<longrightarrow> executeAction_from n actions t = (Inr False, t3\<lparr>s := endGroup i False (s t3)\<rparr>))
   \<and> (catalog \<noteq> []
      \<and> (\<forall>a\<in>set catalog. \<forall>u. \<exists>m u'. Func a u = (Some (invalidData m), u') \<and> draws u' \<noteq> draws u)
    \<longrightarrow> executeAction (SampledFrom catalog) t =
          (Inr False, snd (attempt (SampledFrom catalog) t)))
   \<and> (more' ops r (s t) = (Inr True, r1, s0)
      \<and> beginGroup actionLabel False s0 = (i, s1)
      \<and> Draw actions (t\<lparr>s := s1\<rparr>) ''action'' = (Inr a, t2)
      \<and> Func a t2 = (Some (invalidData m), t3) \<and> draws t3 \<noteq> draws t2
    \<longrightarrow> Repeat_loop (Suc fuel) ops r actions check t =
          (case reject ops r1 of
             Inl p \<Rightarrow> (Panicked p, t3\<lparr>s := endGroup i False (s t3)\<rparr>, [Step (Inr False)])
           | Inr r2 \<Rightarrow> prepend [Step (Inr False)]
                        (Repeat_loop fuel ops r2 actions check
                           (t3\<lparr>s := endGroup i False (s t3)\<rparr>))))"
proof (intro conjI)
  show "n < validActionTries \<and> beginGroup actionLabel False (s t) = (i, s1)
      \<and> Draw actions (t\<lparr>s := s1\<rparr>) ''action'' = (Inr a, t2)
      \<and> Func a t2 = (Some (invalidData m), t3) \<and> draws t3 \<noteq> draws t2
    \<longrightarrow> executeAction_from n actions t = (Inr False, t3\<lparr>s := endGroup i False (s t3)\<rparr>)"
  proof (rule impI)
    assume h: "n < validActionTries \<and> beginGroup actionLabel False (s t) = (i, s1)
      \<and> Draw actions (t\<lparr>s := s1\<rparr>) ''action'' = (Inr a, t2)
      \<and> Func a t2 = (Some (invalidData m), t3) \<and> draws t3 \<noteq> draws t2"
    then have "attempt actions t = (Inr (True, False), t3\<lparr>s := endGroup i False (s t3)\<rparr>)"
      using attempt_invalid[of t i s1 actions a t2 m t3] by simp
    with h show "executeAction_from n actions t = (Inr False, t3\<lparr>s := endGroup i False (s t3)\<rparr>)"
      by (subst executeAction_from_unfold) simp
  qed
next
  show "catalog \<noteq> []
      \<and> (\<forall>a\<in>set catalog. \<forall>u. \<exists>m u'. Func a u = (Some (invalidData m), u') \<and> draws u' \<noteq> draws u)
    \<longrightarrow> executeAction (SampledFrom catalog) t =
          (Inr False, snd (attempt (SampledFrom catalog) t))"
  proof (rule impI)
    assume h: "catalog \<noteq> []
      \<and> (\<forall>a\<in>set catalog. \<forall>u. \<exists>m u'. Func a u = (Some (invalidData m), u') \<and> draws u' \<noteq> draws u)"
    then obtain t' where "attempt (SampledFrom catalog) t = (Inr (True, False), t')"
      using attempt_all_costly by blast
    then show "executeAction (SampledFrom catalog) t =
          (Inr False, snd (attempt (SampledFrom catalog) t))"
      unfolding executeAction_def
      by (subst executeAction_from_unfold) (simp add: validActionTries_def)
  qed
next
  show "more' ops r (s t) = (Inr True, r1, s0)
      \<and> beginGroup actionLabel False s0 = (i, s1)
      \<and> Draw actions (t\<lparr>s := s1\<rparr>) ''action'' = (Inr a, t2)
      \<and> Func a t2 = (Some (invalidData m), t3) \<and> draws t3 \<noteq> draws t2
    \<longrightarrow> Repeat_loop (Suc fuel) ops r actions check t =
          (case reject ops r1 of
             Inl p \<Rightarrow> (Panicked p, t3\<lparr>s := endGroup i False (s t3)\<rparr>, [Step (Inr False)])
           | Inr r2 \<Rightarrow> prepend [Step (Inr False)]
                        (Repeat_loop fuel ops r2 actions check
                           (t3\<lparr>s := endGroup i False (s t3)\<rparr>)))"
  proof (rule impI)
    assume h: "more' ops r (s t) = (Inr True, r1, s0)
      \<and> beginGroup actionLabel False s0 = (i, s1)
      \<and> Draw actions (t\<lparr>s := s1\<rparr>) ''action'' = (Inr a, t2)
      \<and> Func a t2 = (Some (invalidData m), t3) \<and> draws t3 \<noteq> draws t2"
    then have b: "beginGroup actionLabel False (s (t\<lparr>s := s0\<rparr>)) = (i, s1)"
      and d: "Draw actions (t\<lparr>s := s0\<rparr>\<lparr>s := s1\<rparr>) ''action'' = (Inr a, t2)"
      and f: "Func a t2 = (Some (invalidData m), t3)"
      by simp_all
    from attempt_invalid[OF b d f] h
    have "attempt actions (t\<lparr>s := s0\<rparr>) = (Inr (True, False), t3\<lparr>s := endGroup i False (s t3)\<rparr>)"
      by simp
    then have "executeAction actions (t\<lparr>s := s0\<rparr>) = (Inr False, t3\<lparr>s := endGroup i False (s t3)\<rparr>)"
      unfolding executeAction_def
      by (subst executeAction_from_unfold) (simp add: validActionTries_def)
    with h show "Repeat_loop (Suc fuel) ops r actions check t =
          (case reject ops r1 of
             Inl p \<Rightarrow> (Panicked p, t3\<lparr>s := endGroup i False (s t3)\<rparr>, [Step (Inr False)])
           | Inr r2 \<Rightarrow> prepend [Step (Inr False)]
                        (Repeat_loop fuel ops r2 actions check
                           (t3\<lparr>s := endGroup i False (s t3)\<rparr>)))"
      by simp
  qed
qed

theorem costly_invalid_attempt_rejects_step_witness:
  "executeAction_from 0 (SampledFrom [costlyAction]) trial0 =
     (Inr False, trial0_drawn\<lparr>draws := 2, s := endGroup 0 False (s trial0_drawn)\<rparr>)
   \<and> executeAction (SampledFrom [costlyAction]) trial0 =
     (Inr False, snd (attempt (SampledFrom [costlyAction]) trial0))
   \<and> Repeat_loop (Suc 0) budgetOps (Suc 0) (SampledFrom [costlyAction]) None trial0 =
     (OutOfFuel, trial0_drawn\<lparr>draws := 2, s := endGroup 0 False (s trial0_drawn)\<rparr>,
      [Step (Inr False)])"
proof -
  have h1: "0 < validActionTries" by (simp add: validActionTries_def)
  have h2: "beginGroup actionLabel False (s trial0) = (0, s trial0_begun)"
    by (simp add: beginGroup_def trial0_def trial0_begun_def)
  have h3: "Draw (SampledFrom [costlyAction]) (trial0\<lparr>s := s trial0_begun\<rparr>) ''action''
            = (Inr costlyAction, trial0_drawn)"
    by (simp add: trial0_drawn_def trial0_begun_def trial0_def drawIndex_def)
  have h4: "Func costlyAction trial0_drawn =
            (Some (invalidData ''not now''), trial0_drawn\<lparr>draws := 2\<rparr>)"
    by (simp add: costlyAction_def trial0_drawn_def)
  have h5: "draws (trial0_drawn\<lparr>draws := 2\<rparr>) \<noteq> draws trial0_drawn"
    by (simp add: trial0_drawn_def)
  have h6: "[costlyAction] \<noteq> []" by simp
  have h7: "\<forall>a\<in>set [costlyAction]. \<forall>u. \<exists>m u'. Func a u = (Some (invalidData m), u') \<and> draws u' \<noteq> draws u"
    by (simp add: costlyAction_def)
  have h8: "more' budgetOps (Suc 0) (s trial0) = (Inr True, 0, s trial0)"
    by (simp add: budgetOps_def)
  have h9: "reject budgetOps 0 = Inr (Suc 0)" by (simp add: budgetOps_def)
  have "executeAction_from 0 (SampledFrom [costlyAction]) trial0 =
     (Inr False, (trial0_drawn\<lparr>draws := 2\<rparr>)\<lparr>s := endGroup 0 False (s (trial0_drawn\<lparr>draws := 2\<rparr>))\<rparr>)
   \<and> executeAction (SampledFrom [costlyAction]) trial0 =
     (Inr False, snd (attempt (SampledFrom [costlyAction]) trial0))
   \<and> Repeat_loop (Suc 0) budgetOps (Suc 0) (SampledFrom [costlyAction]) None trial0 =
     (case reject budgetOps 0 of
        Inl p \<Rightarrow> (Panicked p, (trial0_drawn\<lparr>draws := 2\<rparr>)\<lparr>s := endGroup 0 False (s (trial0_drawn\<lparr>draws := 2\<rparr>))\<rparr>,
                  [Step (Inr False)])
      | Inr r2 \<Rightarrow> prepend [Step (Inr False)]
           (Repeat_loop 0 budgetOps r2 (SampledFrom [costlyAction]) None
              ((trial0_drawn\<lparr>draws := 2\<rparr>)\<lparr>s := endGroup 0 False (s (trial0_drawn\<lparr>draws := 2\<rparr>))\<rparr>)))"
    using costly_invalid_attempt_rejects_step[where n = 0 and t = trial0 and i = 0
        and ?s1.0 = "s trial0_begun" and actions = "SampledFrom [costlyAction]"
        and a = costlyAction and ?t2.0 = trial0_drawn and m = "''not now''"
        and ?t3.0 = "trial0_drawn\<lparr>draws := 2\<rparr>" and catalog = "[costlyAction]"
        and ops = budgetOps and r = "Suc 0" and ?r1.0 = 0 and ?s0.0 = "s trial0"
        and fuel = 0 and check = None]
      h1 h2 h3 h4 h5 h6 h7 h8 by blast
  then show ?thesis using h9 by simp
qed

subsection \<open>The outcomes of one step\<close>


lemma afterSkips_Suc_front:
  "afterSkips (Suc k) actions t = afterSkips k actions (snd (attempt actions t))"
  by (induction k) simp_all

lemma attempt_SampledFrom_tied:
  assumes ne: "catalog \<noteq> []"
  shows "\<exists>i s1 a t2 t3. a \<in> set catalog
      \<and> beginGroup actionLabel False (s u) = (i, s1)
      \<and> Draw (SampledFrom catalog) (u\<lparr>s := s1\<rparr>) ''action'' = (Inr a, t2)
      \<and> ((attempt (SampledFrom catalog) u = (Inr (False, False), t3\<lparr>s := endGroup i False (s t3)\<rparr>)
            \<and> Func a t2 = (None, t3) \<and> failOnError t3 = None)
        \<or> (attempt (SampledFrom catalog) u =
               (Inr (True, draws t3 = draws t2), t3\<lparr>s := endGroup i False (s t3)\<rparr>)
            \<and> (\<exists>m. Func a t2 = (Some (invalidData m), t3)))
        \<or> (\<exists>p. attempt (SampledFrom catalog) u = (Inl p, t3) \<and> \<not> isInvalidData p
            \<and> (Func a t2 = (Some p, t3) \<or> (Func a t2 = (None, t3) \<and> failOnError t3 = Some p))))"
proof -
  obtain i s1 where b: "beginGroup actionLabel False (s u) = (i, s1)"
    by (cases "beginGroup actionLabel False (s u)")
  from Draw_SampledFrom[OF ne, of "u\<lparr>s := s1\<rparr>" "''action''"]
  obtain a t2 where a: "a \<in> set catalog"
    and d: "Draw (SampledFrom catalog) (u\<lparr>s := s1\<rparr>) ''action'' = (Inr a, t2)"
    by auto
  obtain q t3 where ra: "runAction t2 a = (q, t3)" by (cases "runAction t2 a")
  have "(attempt (SampledFrom catalog) u = (Inr (False, False), t3\<lparr>s := endGroup i False (s t3)\<rparr>)
            \<and> Func a t2 = (None, t3) \<and> failOnError t3 = None)
        \<or> (attempt (SampledFrom catalog) u =
               (Inr (True, draws t3 = draws t2), t3\<lparr>s := endGroup i False (s t3)\<rparr>)
            \<and> (\<exists>m. Func a t2 = (Some (invalidData m), t3)))
        \<or> (\<exists>p. attempt (SampledFrom catalog) u = (Inl p, t3) \<and> \<not> isInvalidData p
            \<and> (Func a t2 = (Some p, t3) \<or> (Func a t2 = (None, t3) \<and> failOnError t3 = Some p)))"
  proof (cases q)
    case (Inl p)
    with attempt_fault[OF b d] ra have "attempt (SampledFrom catalog) u = (Inl p, t3)" by simp
    moreover from runAction_cases[OF ra] Inl
    have "\<not> isInvalidData p \<and>
         (Func a t2 = (Some p, t3) \<or> (Func a t2 = (None, t3) \<and> failOnError t3 = Some p))"
      by auto
    ultimately show ?thesis by blast
  next
    case (Inr c)
    with attempt_eq[OF b d] ra
    have at: "attempt (SampledFrom catalog) u = (Inr c, t3\<lparr>s := endGroup i False (s t3)\<rparr>)"
      by simp
    from runAction_cases[OF ra] Inr
    have "(c = (False, False) \<and> Func a t2 = (None, t3) \<and> failOnError t3 = None)
        \<or> (\<exists>m. c = (True, draws t3 = draws t2) \<and> Func a t2 = (Some (invalidData m), t3))"
      by auto
    with at show ?thesis by auto
  qed
  with a b d show ?thesis by blast
qed

lemma attempt_skipped_is_invalid:
  assumes "attempt actions t = (Inr (invalid, True), u)"
  shows "invalid"
proof -
  obtain i s1 where b: "beginGroup actionLabel False (s t) = (i, s1)"
    by (cases "beginGroup actionLabel False (s t)")
  obtain dr t2 where d: "Draw actions (t\<lparr>s := s1\<rparr>) ''action'' = (dr, t2)"
    by (cases "Draw actions (t\<lparr>s := s1\<rparr>) ''action''")
  show ?thesis
  proof (cases dr)
    case (Inl p)
    with assms b d show ?thesis by (simp add: attempt_def)
  next
    case (Inr a)
    obtain q t3 where ra: "runAction t2 a = (q, t3)" by (cases "runAction t2 a")
    from assms b d Inr ra have "q = Inr (invalid, True)"
      by (cases q) (simp_all add: attempt_def)
    with runAction_cases[OF ra] show ?thesis by auto
  qed
qed

text \<open>
  The loop seen as a run of passes, for any generator: some number of skipped passes,
  then either the panic after the loop, when the tries are used up, or one pass that is
  not skipped and decides the result.
\<close>

lemma executeAction_from_passes:
  "validActionTries - n = d \<Longrightarrow> executeAction_from n actions t = (r, t') \<Longrightarrow>
   \<exists>k\<le>d. (\<forall>j<k. fst (attempt actions (afterSkips j actions t)) = Inr (True, True))
      \<and> ((k = d \<and> r = Inl (stopTest noValidActionsMsg) \<and> t' = afterSkips k actions t)
        \<or> (k < d \<and> (\<exists>invalid. attempt actions (afterSkips k actions t) = (Inr (invalid, False), t')
                          \<and> r = Inr (\<not> invalid)))
        \<or> (k < d \<and> (\<exists>p. attempt actions (afterSkips k actions t) = (Inl p, t') \<and> r = Inl p)))"
proof (induction d arbitrary: n t)
  case 0
  then show ?case by (simp add: executeAction_from_exhausted)
next
  case (Suc d)
  then have n: "n < validActionTries" and d: "validActionTries - (n + 1) = d" by auto
  obtain q u where at: "attempt actions t = (q, u)" by (cases "attempt actions t")
  show ?case
  proof (cases q)
    case (Inl p)
    with Suc.prems(2) n at have "r = Inl p" "t' = u"
      by (simp_all add: executeAction_from_unfold[of n])
    with at Inl show ?thesis by (intro exI[of _ 0]) simp
  next
    case (Inr c)
    obtain invalid skipped where c: "c = (invalid, skipped)" by (cases c)
    show ?thesis
    proof (cases skipped)
      case False
      with Suc.prems(2) n at Inr c have "r = Inr (\<not> invalid)" "t' = u"
        by (simp_all add: executeAction_from_unfold[of n])
      with at Inr c False show ?thesis by (intro exI[of _ 0]) simp
    next
      case True
      with at Inr c have "attempt actions t = (Inr (invalid, True), u)" by simp
      then have "invalid" by (rule attempt_skipped_is_invalid)
      with at Inr c True have at': "attempt actions t = (Inr (True, True), u)" by simp
      with Suc.prems(2) n have "executeAction_from (n + 1) actions u = (r, t')"
        by (simp add: executeAction_from_unfold[of n])
      from Suc.IH[OF d this] obtain k where k: "k \<le> d"
        and sk: "\<forall>j<k. fst (attempt actions (afterSkips j actions u)) = Inr (True, True)"
        and fin: "(k = d \<and> r = Inl (stopTest noValidActionsMsg) \<and> t' = afterSkips k actions u)
        \<or> (k < d \<and> (\<exists>invalid. attempt actions (afterSkips k actions u) = (Inr (invalid, False), t')
                          \<and> r = Inr (\<not> invalid)))
        \<or> (k < d \<and> (\<exists>p. attempt actions (afterSkips k actions u) = (Inl p, t') \<and> r = Inl p))"
        by blast
      have u: "\<And>j. afterSkips (Suc j) actions t = afterSkips j actions u"
        using at' by (simp only: afterSkips_Suc_front snd_conv)
      have sk': "\<forall>j<Suc k. fst (attempt actions (afterSkips j actions t)) = Inr (True, True)"
      proof (intro allI impI)
        fix j assume "j < Suc k"
        show "fst (attempt actions (afterSkips j actions t)) = Inr (True, True)"
        proof (cases j)
          case 0
          with at' show ?thesis by simp
        next
          case (Suc j')
          with \<open>j < Suc k\<close> have "j' < k" by simp
          with sk have "fst (attempt actions (afterSkips j' actions u)) = Inr (True, True)"
            by blast
          with Suc u[of j'] show ?thesis by (simp only:)
        qed
      qed
      from k fin sk' show ?thesis
        unfolding u[of k, symmetric]
        by (intro exI[of _ "Suc k"]) auto
    qed
  qed
qed

text \<open>
  Claim C3, against the code: with the catalog \<open>[skipAction, costlyAction]\<close> the first
  attempt draws \<open>skipAction\<close> and is skipped, the second draws \<open>costlyAction\<close>, and
  \<open>executeAction\<close> returns \<open>false\<close>: no action ran to completion and there was no
  \<open>stopTest(noValidActionsMsg)\<close>.
\<close>

theorem step_returns_false_counterexample:
  "[skipAction, costlyAction] \<noteq> []
   \<and> fst (executeAction (SampledFrom [skipAction, costlyAction]) trial0) = Inr False"
  unfolding executeAction_def
  by (simp add: executeAction_from_unfold[of 0] executeAction_from_unfold[of "Suc 0"]
        validActionTries_def attempt_def beginGroup_def drawIndex_def runAction_def
        runAction_recover_def skipAction_def costlyAction_def trial0_def endGroup_def)

text \<open>
  Claim C3, as amended: for a catalog with at least one action, a call of
  \<open>executeAction\<close> makes \<open>k\<close> skipped attempts, \<open>k\<close> at most \<open>validActionTries\<close>, in
  each of which the drawn action signalled \<open>invalidData\<close> with the draw counter unchanged
  and the group was closed. When \<open>k\<close> is \<open>validActionTries\<close> the call panics with
  \<open>stopTest(noValidActionsMsg)\<close>. Otherwise one more attempt is made and decides: the call
  returns \<open>true\<close>, that attempt's action having run to completion with no failure
  pending (so exactly one action ran to completion); or it returns \<open>false\<close>, that
  action having signalled \<open>invalidData\<close> after the draw counter changed; or it panics
  with a value that is not \<open>invalidData\<close>, raised by that action or by the
  \<open>failOnError\<close> after it. In each case the context returned is the one that attempt
  left.
\<close>

theorem executeAction_outcomes:
  "catalog \<noteq> [] \<and> executeAction (SampledFrom catalog) t = (r, t') \<longrightarrow>
   (\<exists>k\<le>validActionTries.
      (\<forall>j<k. \<exists>i s1 a t2 m t3. a \<in> set catalog
          \<and> beginGroup actionLabel False (s (afterSkips j (SampledFrom catalog) t)) = (i, s1)
          \<and> Draw (SampledFrom catalog) ((afterSkips j (SampledFrom catalog) t)\<lparr>s := s1\<rparr>) ''action''
              = (Inr a, t2)
          \<and> Func a t2 = (Some (invalidData m), t3) \<and> draws t3 = draws t2
          \<and> afterSkips (Suc j) (SampledFrom catalog) t = t3\<lparr>s := endGroup i False (s t3)\<rparr>)
    \<and> ((k = validActionTries \<and> r = Inl (stopTest noValidActionsMsg)
          \<and> t' = afterSkips k (SampledFrom catalog) t)
      \<or> (k < validActionTries \<and> (\<exists>i s1 a t2 t3. a \<in> set catalog
          \<and> beginGroup actionLabel False (s (afterSkips k (SampledFrom catalog) t)) = (i, s1)
          \<and> Draw (SampledFrom catalog) ((afterSkips k (SampledFrom catalog) t)\<lparr>s := s1\<rparr>) ''action''
              = (Inr a, t2)
          \<and> ((r = Inr True \<and> Func a t2 = (None, t3) \<and> failOnError t3 = None
                \<and> t' = t3\<lparr>s := endGroup i False (s t3)\<rparr>)
            \<or> (r = Inr False \<and> (\<exists>m. Func a t2 = (Some (invalidData m), t3))
                \<and> draws t3 \<noteq> draws t2 \<and> t' = t3\<lparr>s := endGroup i False (s t3)\<rparr>)
            \<or> (\<exists>p. r = Inl p \<and> \<not> isInvalidData p
                \<and> (Func a t2 = (Some p, t3) \<or> (Func a t2 = (None, t3) \<and> failOnError t3 = Some p))
                \<and> t' = t3))))))"
proof (rule impI)
  let ?g = "SampledFrom catalog"
  assume h: "catalog \<noteq> [] \<and> executeAction ?g t = (r, t')"
  then have ne: "catalog \<noteq> []" and ex: "executeAction_from 0 ?g t = (r, t')"
    by (simp_all add: executeAction_def)
  from executeAction_from_passes[OF _ ex, of validActionTries]
  obtain k where k: "k \<le> validActionTries"
    and sk: "\<forall>j<k. fst (attempt ?g (afterSkips j ?g t)) = Inr (True, True)"
    and fin: "(k = validActionTries \<and> r = Inl (stopTest noValidActionsMsg) \<and> t' = afterSkips k ?g t)
        \<or> (k < validActionTries \<and> (\<exists>invalid. attempt ?g (afterSkips k ?g t) = (Inr (invalid, False), t')
                          \<and> r = Inr (\<not> invalid)))
        \<or> (k < validActionTries \<and> (\<exists>p. attempt ?g (afterSkips k ?g t) = (Inl p, t') \<and> r = Inl p))"
    by auto
  have skips: "\<forall>j<k. \<exists>i s1 a t2 m t3. a \<in> set catalog
          \<and> beginGroup actionLabel False (s (afterSkips j ?g t)) = (i, s1)
          \<and> Draw ?g ((afterSkips j ?g t)\<lparr>s := s1\<rparr>) ''action'' = (Inr a, t2)
          \<and> Func a t2 = (Some (invalidData m), t3) \<and> draws t3 = draws t2
          \<and> afterSkips (Suc j) ?g t = t3\<lparr>s := endGroup i False (s t3)\<rparr>"
  proof (intro allI impI)
    fix j assume "j < k"
    with sk have a: "fst (attempt ?g (afterSkips j ?g t)) = Inr (True, True)" by blast
    from attempt_SampledFrom_tied[OF ne, of "afterSkips j ?g t"] a
    show "\<exists>i s1 a t2 m t3. a \<in> set catalog
          \<and> beginGroup actionLabel False (s (afterSkips j ?g t)) = (i, s1)
          \<and> Draw ?g ((afterSkips j ?g t)\<lparr>s := s1\<rparr>) ''action'' = (Inr a, t2)
          \<and> Func a t2 = (Some (invalidData m), t3) \<and> draws t3 = draws t2
          \<and> afterSkips (Suc j) ?g t = t3\<lparr>s := endGroup i False (s t3)\<rparr>"
      by (elim exE conjE disjE) (simp; blast)+
  qed
  have final: "k < validActionTries \<Longrightarrow> \<exists>i s1 a t2 t3. a \<in> set catalog
          \<and> beginGroup actionLabel False (s (afterSkips k ?g t)) = (i, s1)
          \<and> Draw ?g ((afterSkips k ?g t)\<lparr>s := s1\<rparr>) ''action'' = (Inr a, t2)
          \<and> ((r = Inr True \<and> Func a t2 = (None, t3) \<and> failOnError t3 = None
                \<and> t' = t3\<lparr>s := endGroup i False (s t3)\<rparr>)
            \<or> (r = Inr False \<and> (\<exists>m. Func a t2 = (Some (invalidData m), t3))
                \<and> draws t3 \<noteq> draws t2 \<and> t' = t3\<lparr>s := endGroup i False (s t3)\<rparr>)
            \<or> (\<exists>p. r = Inl p \<and> \<not> isInvalidData p
                \<and> (Func a t2 = (Some p, t3) \<or> (Func a t2 = (None, t3) \<and> failOnError t3 = Some p))
                \<and> t' = t3))"
  proof -
    assume lt: "k < validActionTries"
    with fin obtain q where q: "attempt ?g (afterSkips k ?g t) = (q, t')"
      and qr: "(\<exists>invalid. q = Inr (invalid, False) \<and> r = Inr (\<not> invalid)) \<or> (\<exists>p. q = Inl p \<and> r = Inl p)"
      by auto
    from attempt_SampledFrom_tied[OF ne, of "afterSkips k ?g t"] q qr
    show ?thesis
      by (elim exE conjE disjE) (simp; blast)+
  qed
  from k skips fin final show "\<exists>k\<le>validActionTries.
      (\<forall>j<k. \<exists>i s1 a t2 m t3. a \<in> set catalog
          \<and> beginGroup actionLabel False (s (afterSkips j (SampledFrom catalog) t)) = (i, s1)
          \<and> Draw (SampledFrom catalog) ((afterSkips j (SampledFrom catalog) t)\<lparr>s := s1\<rparr>) ''action''
              = (Inr a, t2)
          \<and> Func a t2 = (Some (invalidData m), t3) \<and> draws t3 = draws t2
          \<and> afterSkips (Suc j) (SampledFrom catalog) t = t3\<lparr>s := endGroup i False (s t3)\<rparr>)
    \<and> ((k = validActionTries \<and> r = Inl (stopTest noValidActionsMsg)
          \<and> t' = afterSkips k (SampledFrom catalog) t)
      \<or> (k < validActionTries \<and> (\<exists>i s1 a t2 t3. a \<in> set catalog
          \<and> beginGroup actionLabel False (s (afterSkips k (SampledFrom catalog) t)) = (i, s1)
          \<and> Draw (SampledFrom catalog) ((afterSkips k (SampledFrom catalog) t)\<lparr>s := s1\<rparr>) ''action''
              = (Inr a, t2)
          \<and> ((r = Inr True \<and> Func a t2 = (None, t3) \<and> failOnError t3 = None
                \<and> t' = t3\<lparr>s := endGroup i False (s t3)\<rparr>)
            \<or> (r = Inr False \<and> (\<exists>m. Func a t2 = (Some (invalidData m), t3))
                \<and> draws t3 \<noteq> draws t2 \<and> t' = t3\<lparr>s := endGroup i False (s t3)\<rparr>)
            \<or> (\<exists>p. r = Inl p \<and> \<not> isInvalidData p
                \<and> (Func a t2 = (Some p, t3) \<or> (Func a t2 = (None, t3) \<and> failOnError t3 = Some p))
                \<and> t' = t3)))))"
    by (intro exI[of _ k]) blast
qed

theorem executeAction_outcomes_witness:
  "[skipAction, okAction] \<noteq> []
   \<and> fst (executeAction (SampledFrom [skipAction, okAction]) trial0) = Inr True
   \<and> (\<exists>k i s1 a t2 t3. k < validActionTries
        \<and> beginGroup actionLabel False (s (afterSkips k (SampledFrom [skipAction, okAction]) trial0))
             = (i, s1)
        \<and> Draw (SampledFrom [skipAction, okAction])
             ((afterSkips k (SampledFrom [skipAction, okAction]) trial0)\<lparr>s := s1\<rparr>) ''action''
             = (Inr a, t2)
        \<and> Func a t2 = (None, t3) \<and> failOnError t3 = None
        \<and> snd (executeAction (SampledFrom [skipAction, okAction]) trial0)
             = t3\<lparr>s := endGroup i False (s t3)\<rparr>)"
proof -
  let ?g = "SampledFrom [skipAction, okAction]"
  have ne: "[skipAction, okAction] \<noteq> []" by simp
  have e: "fst (executeAction ?g trial0) = Inr True"
    unfolding executeAction_def
    by (simp add: executeAction_from_unfold[of 0] executeAction_from_unfold[of "Suc 0"]
        validActionTries_def attempt_def beginGroup_def drawIndex_def runAction_def
        runAction_recover_def skipAction_def okAction_def trial0_def endGroup_def
        failOnError_def)
  then have ex: "executeAction ?g trial0 = (Inr True, snd (executeAction ?g trial0))"
    by (metis prod.collapse)
  from executeAction_outcomes[of "[skipAction, okAction]" trial0 "Inr True"
      "snd (executeAction ?g trial0)"] ne ex
  have "\<exists>k i s1 a t2 t3. k < validActionTries
        \<and> beginGroup actionLabel False (s (afterSkips k ?g trial0)) = (i, s1)
        \<and> Draw ?g ((afterSkips k ?g trial0)\<lparr>s := s1\<rparr>) ''action'' = (Inr a, t2)
        \<and> Func a t2 = (None, t3) \<and> failOnError t3 = None
        \<and> snd (executeAction ?g trial0) = t3\<lparr>s := endGroup i False (s t3)\<rparr>"
    by (elim impE exE conjE disjE) (simp; blast)+
  with ne e show ?thesis by blast
qed

subsection \<open>The draw group of an attempt\<close>

lemma endGroup_closed:
  "i < length (groups st) \<Longrightarrow> closed (groups (endGroup i d st) ! i)"
  by (simp add: endGroup_def)

text \<open>
  Claim C4, against the code: \<open>endGroup\<close> is an ordinary statement after \<open>runAction\<close>,
  not a deferred one. When the action panics with a value that is not \<open>invalidData\<close>,
  \<open>runAction\<close> raises it again and \<open>executeAction\<close> is left before \<open>endGroup\<close>: the
  one group of the attempt is still open when the panic reaches the caller.
\<close>

theorem fatal_fault_leaves_group_open_counterexample:
  "fst (executeAction (SampledFrom [faultAction]) trial0) = Inl (otherPanic ''boom'')
   \<and> map closed (groups (s (snd (executeAction (SampledFrom [faultAction]) trial0)))) = [False]"
  unfolding executeAction_def
  by (simp add: executeAction_from_unfold[of 0]
        validActionTries_def attempt_def beginGroup_def drawIndex_def runAction_def
        runAction_recover_def faultAction_def trial0_def)

text \<open>
  Claim C4, as amended: on the exit paths of an attempt where \<open>runAction\<close> returns (the
  action completed, or signalled \<open>invalidData\<close>), the group opened at the start of the
  attempt is closed by \<open>endGroup(i, false)\<close> before the loop goes on or the result is
  returned; when \<open>runAction\<close> panics, the panic leaves \<open>executeAction\<close> with the
  context as the action left it, and \<open>endGroup\<close> is not called.
\<close>

theorem group_closed_unless_fatal:
  "(n < validActionTries \<and> beginGroup actionLabel False (s t) = (i, s1)
      \<and> Draw actions (t\<lparr>s := s1\<rparr>) ''action'' = (Inr a, t2)
      \<and> runAction t2 a = (Inr (invalid, skipped), t3)
    \<longrightarrow> executeAction_from n actions t =
          (if skipped then executeAction_from (n + 1) actions (t3\<lparr>s := endGroup i False (s t3)\<rparr>)
           else (Inr (\<not> invalid), t3\<lparr>s := endGroup i False (s t3)\<rparr>))
        \<and> (i < length (groups (s t3)) \<longrightarrow> closed (groups (endGroup i False (s t3)) ! i)))
   \<and> (n < validActionTries \<and> beginGroup actionLabel False (s t) = (i, s1)
      \<and> Draw actions (t\<lparr>s := s1\<rparr>) ''action'' = (Inr a, t2)
      \<and> runAction t2 a = (Inl p, t3)
    \<longrightarrow> executeAction_from n actions t = (Inl p, t3))"
proof (rule conjI)
  show "n < validActionTries \<and> beginGroup actionLabel False (s t) = (i, s1)
      \<and> Draw actions (t\<lparr>s := s1\<rparr>) ''action'' = (Inr a, t2)
      \<and> runAction t2 a = (Inr (invalid, skipped), t3)
    \<longrightarrow> executeAction_from n actions t =
          (if skipped then executeAction_from (n + 1) actions (t3\<lparr>s := endGroup i False (s t3)\<rparr>)
           else (Inr (\<not> invalid), t3\<lparr>s := endGroup i False (s t3)\<rparr>))
        \<and> (i < length (groups (s t3)) \<longrightarrow> closed (groups (endGroup i False (s t3)) ! i))"
  proof (rule impI)
    assume h: "n < validActionTries \<and> beginGroup actionLabel False (s t) = (i, s1)
      \<and> Draw actions (t\<lparr>s := s1\<rparr>) ''action'' = (Inr a, t2)
      \<and> runAction t2 a = (Inr (invalid, skipped), t3)"
    then have "attempt actions t = (Inr (invalid, skipped), t3\<lparr>s := endGroup i False (s t3)\<rparr>)"
      by (simp add: attempt_eq)
    with h have "executeAction_from n actions t =
          (if skipped then executeAction_from (n + 1) actions (t3\<lparr>s := endGroup i False (s t3)\<rparr>)
           else (Inr (\<not> invalid), t3\<lparr>s := endGroup i False (s t3)\<rparr>))"
      by (subst executeAction_from_unfold) simp
    then show "executeAction_from n actions t =
          (if skipped then executeAction_from (n + 1) actions (t3\<lparr>s := endGroup i False (s t3)\<rparr>)
           else (Inr (\<not> invalid), t3\<lparr>s := endGroup i False (s t3)\<rparr>))
        \<and> (i < length (groups (s t3)) \<longrightarrow> closed (groups (endGroup i False (s t3)) ! i))"
      by (simp add: endGroup_closed)
  qed
next
  show "n < validActionTries \<and> beginGroup actionLabel False (s t) = (i, s1)
      \<and> Draw actions (t\<lparr>s := s1\<rparr>) ''action'' = (Inr a, t2)
      \<and> runAction t2 a = (Inl p, t3)
    \<longrightarrow> executeAction_from n actions t = (Inl p, t3)"
  proof (rule impI)
    assume h: "n < validActionTries \<and> beginGroup actionLabel False (s t) = (i, s1)
      \<and> Draw actions (t\<lparr>s := s1\<rparr>) ''action'' = (Inr a, t2)
      \<and> runAction t2 a = (Inl p, t3)"
    then have "attempt actions t = (Inl p, t3)"
      by (simp add: attempt_fault)
    with h show "executeAction_from n actions t = (Inl p, t3)"
      by (subst executeAction_from_unfold) simp
  qed
qed

theorem group_closed_unless_fatal_witness:
  "executeAction_from 0 (SampledFrom [okAction]) trial0 =
     (Inr True, trial0_drawn\<lparr>s := endGroup 0 False (s trial0_drawn)\<rparr>)
   \<and> closed (groups (endGroup 0 False (s trial0_drawn)) ! 0)
   \<and> executeAction_from 0 (SampledFrom [faultAction]) trial0 = (Inl (otherPanic ''boom''), trial0_drawn)"
proof -
  have h1: "0 < validActionTries" by (simp add: validActionTries_def)
  have h2: "beginGroup actionLabel False (s trial0) = (0, s trial0_begun)"
    by (simp add: beginGroup_def trial0_def trial0_begun_def)
  have h3: "Draw (SampledFrom [okAction]) (trial0\<lparr>s := s trial0_begun\<rparr>) ''action''
            = (Inr okAction, trial0_drawn)"
    by (simp add: trial0_drawn_def trial0_begun_def trial0_def drawIndex_def)
  have h4: "runAction trial0_drawn okAction = (Inr (False, False), trial0_drawn)"
    by (simp add: runAction_def okAction_def failOnError_def trial0_drawn_def trial0_begun_def
          trial0_def)
  have h5: "0 < length (groups (s trial0_drawn))"
    by (simp add: trial0_drawn_def trial0_begun_def trial0_def beginGroup_def drawIndex_def)
  have h6: "Draw (SampledFrom [faultAction]) (trial0\<lparr>s := s trial0_begun\<rparr>) ''action''
            = (Inr faultAction, trial0_drawn)"
    by (simp add: trial0_drawn_def trial0_begun_def trial0_def drawIndex_def)
  have h7: "runAction trial0_drawn faultAction = (Inl (otherPanic ''boom''), trial0_drawn)"
    by (simp add: runAction_def runAction_recover_def faultAction_def)
  from group_closed_unless_fatal[of 0 trial0 0 "s trial0_begun" "SampledFrom [okAction]"
        okAction trial0_drawn False False trial0_drawn] h1 h2 h3 h4 h5
  have a: "executeAction_from 0 (SampledFrom [okAction]) trial0 =
     (Inr True, trial0_drawn\<lparr>s := endGroup 0 False (s trial0_drawn)\<rparr>)
   \<and> closed (groups (endGroup 0 False (s trial0_drawn)) ! 0)"
    by simp
  from group_closed_unless_fatal[of 0 trial0 0 "s trial0_begun" "SampledFrom [faultAction]"
        faultAction trial0_drawn _ _ trial0_drawn "otherPanic ''boom''"] h1 h2 h6 h7
  have b: "executeAction_from 0 (SampledFrom [faultAction]) trial0 =
      (Inl (otherPanic ''boom''), trial0_drawn)"
    by simp
  from a b show ?thesis by simp
qed

subsection \<open>What \<open>runAction\<close> catches and what it lets through\<close>






subsection \<open>The classification returned by \<open>runAction\<close>\<close>

text \<open>
  Claim C9: whenever \<open>runAction\<close> returns, \<open>skipped\<close> implies \<open>invalid\<close> (the pair
  \<open>(false, true)\<close> does not occur); \<open>invalid\<close> holds exactly when the action raised
  \<open>invalidData\<close>, and \<open>skipped\<close> exactly when it did so with the draw counter equal
  to its value at the start of \<open>runAction\<close>.
\<close>

theorem runAction_classification:
  "runAction t a = (Inr (invalid, skipped), t') \<longrightarrow>
     (skipped \<longrightarrow> invalid)
   \<and> (invalid \<longleftrightarrow> (\<exists>m. Func a t = (Some (invalidData m), t')))
   \<and> (skipped \<longleftrightarrow> (\<exists>m. Func a t = (Some (invalidData m), t')) \<and> draws t' = draws t)"
proof (rule impI)
  assume ra: "runAction t a = (Inr (invalid, skipped), t')"
  from runAction_cases[OF ra]
  have "(\<not> invalid \<and> \<not> skipped \<and> Func a t = (None, t'))
      \<or> (\<exists>m. invalid \<and> skipped = (draws t' = draws t) \<and> Func a t = (Some (invalidData m), t'))"
    by auto
  then show "(skipped \<longrightarrow> invalid)
   \<and> (invalid \<longleftrightarrow> (\<exists>m. Func a t = (Some (invalidData m), t')))
   \<and> (skipped \<longleftrightarrow> (\<exists>m. Func a t = (Some (invalidData m), t')) \<and> draws t' = draws t)"
    by auto
qed

theorem runAction_classification_witness:
  "runAction trial0 skipAction = (Inr (True, True), trial0)
   \<and> (\<exists>m. Func skipAction trial0 = (Some (invalidData m), trial0))
   \<and> draws trial0 = draws trial0"
proof -
  have h: "runAction trial0 skipAction = (Inr (True, True), trial0)"
    by (simp add: runAction_def runAction_recover_def skipAction_def)
  with runAction_classification[of trial0 skipAction True True trial0]
  show ?thesis by blast
qed

section \<open>Properties of \<open>Repeat\<close>\<close>

subsection \<open>The step count\<close>

lemma sdiv_2_bounds: "- \<bar>k\<bar> \<le> 2 * (k sdiv 2) \<and> 2 * (k sdiv 2) \<le> \<bar>k\<bar>" for k :: int
proof -
  have "\<bar>k sdiv 2\<bar> = \<bar>k\<bar> div 2"
    by (cases "k = 0") (simp_all add: signed_divide_int_def abs_mult abs_sgn_eq)
  then show ?thesis by linarith
qed

lemma sint_goDiv_2: "sint (goDiv w 2) = sint w sdiv 2"
proof -
  have lo: "- (2 ^ 63) \<le> sint w" using sint_ge[of w] by simp
  have hi: "sint w < 2 ^ 63" using sint_lt[of w] by simp
  from sdiv_2_bounds[of "sint w"] lo hi
  have "- (2 ^ 63) \<le> sint w sdiv 2" "sint w sdiv 2 < 2 ^ 63" by linarith+
  then have "signed_take_bit 63 (sint w sdiv 2) = sint w sdiv 2"
    by (rule signed_take_bit_int_eq_self)
  then show ?thesis
    by (simp add: goDiv_def sint_sbintrunc')
qed

text \<open>
  Claim C7: the step count that \<open>Repeat\<close> hands to \<open>newRepeat\<close> is \<open>flags.steps\<close>
  itself, and in short mode \<open>flags.steps\<close> divided by two, truncated towards zero and
  without wrap-around; a run in short mode is the run in normal mode with the halved
  count, and the count reaches the loop only through \<open>newRepeat\<close>.
\<close>

theorem repeat_steps_configured_or_halved:
  "sint (repeatSteps flagsSteps False) = sint flagsSteps
   \<and> sint (repeatSteps flagsSteps True) = sint flagsSteps sdiv 2
   \<and> Repeat ops flagsSteps short fuel actions check t =
       Repeat ops (repeatSteps flagsSteps short) False fuel actions check t
   \<and> (case checkAndFail check t of
         ((Some p, t1), es) \<Rightarrow> True
       | ((None, t1), es) \<Rightarrow>
           Repeat ops flagsSteps short fuel actions check t =
           prepend es (Repeat_loop fuel ops
              (newRepeat ops (- 1) (- 1) (repeatSteps flagsSteps short) ''Repeat'')
              actions check t1))"
  by (simp add: repeatSteps_def sint_goDiv_2 Repeat_def Let_def split: prod.splits option.splits)

lemma repeatSteps_examples:
  "sint (repeatSteps 30 True) = 15 \<and> sint (repeatSteps 31 True) = 15
  \<and> sint (repeatSteps (- 31) True) = - 15"
  by (simp add: repeatSteps_def sint_goDiv_2 signed_divide_int_def)

subsection \<open>When the check runs\<close>

lemma checkAndFail_Some_events: "snd (checkAndFail (Some c) t) = [Check]"
  by (simp add: checkAndFail_def split: prod.splits option.splits)

lemma checkAndFail_None_events: "snd (checkAndFail None t) = []"
  by (simp add: checkAndFail_def)

lemma snd_snd_prepend: "snd (snd (prepend es x)) = es @ snd (snd x)"
  by (cases x) simp

lemma Repeat_loop_wellChecked:
  "wellChecked (snd (snd (Repeat_loop fuel ops r actions (Some c) t)))"
proof (induction fuel arbitrary: r t)
  case 0
  then show ?case by simp
next
  case (Suc fuel)
  obtain m r1 s1 where mo: "more' ops r (s t) = (m, r1, s1)"
    by (cases "more' ops r (s t)")
  show ?case
  proof (cases m)
    case (Inl p)
    with mo show ?thesis by simp
  next
    case (Inr go)
    show ?thesis
    proof (cases go)
      case False
      with mo Inr show ?thesis by simp
    next
      case True
      obtain q t2 where ex: "executeAction actions (t\<lparr>s := s1\<rparr>) = (q, t2)"
        by (cases "executeAction actions (t\<lparr>s := s1\<rparr>)")
      show ?thesis
      proof (cases q)
        case (Inl p)
        with mo Inr True ex show ?thesis by simp
      next
        case ok: (Inr b)
        show ?thesis
        proof (cases b)
          case True
          obtain cp t3 es where cf: "checkAndFail (Some c) t2 = ((cp, t3), es)"
            by (cases "checkAndFail (Some c) t2") auto
          with checkAndFail_Some_events[of c t2] have es: "es = [Check]" by simp
          show ?thesis
          proof (cases cp)
            case None
            with mo Inr \<open>go\<close> ex ok True cf es Suc.IH[of r1 t3] show ?thesis
              by (simp add: snd_snd_prepend)
          next
            case (Some p)
            with mo Inr \<open>go\<close> ex ok True cf es show ?thesis by simp
          qed
        next
          case False
          show ?thesis
          proof (cases "reject ops r1")
            case (Inl p)
            with mo Inr \<open>go\<close> ex ok False show ?thesis by simp
          next
            case rj: (Inr r2)
            with mo Inr \<open>go\<close> ex ok False Suc.IH[of r2 t2] show ?thesis
              by (simp add: snd_snd_prepend)
          qed
        qed
      qed
    qed
  qed
qed

lemma Repeat_loop_no_check:
  "Check \<notin> set (snd (snd (Repeat_loop fuel ops r actions None t)))"
proof (induction fuel arbitrary: r t)
  case 0
  then show ?case by simp
next
  case (Suc fuel)
  obtain m r1 s1 where mo: "more' ops r (s t) = (m, r1, s1)"
    by (cases "more' ops r (s t)")
  show ?case
  proof (cases m)
    case (Inl p)
    with mo show ?thesis by simp
  next
    case (Inr go)
    show ?thesis
    proof (cases go)
      case False
      with mo Inr show ?thesis by simp
    next
      case True
      obtain q t2 where ex: "executeAction actions (t\<lparr>s := s1\<rparr>) = (q, t2)"
        by (cases "executeAction actions (t\<lparr>s := s1\<rparr>)")
      show ?thesis
      proof (cases q)
        case (Inl p)
        with mo Inr True ex show ?thesis by simp
      next
        case ok: (Inr b)
        show ?thesis
        proof (cases b)
          case True
          obtain cp t3 es where cf: "checkAndFail None t2 = ((cp, t3), es)"
            by (cases "checkAndFail None t2") auto
          with checkAndFail_None_events[of t2] have es: "es = []" by simp
          show ?thesis
          proof (cases cp)
            case None
            with mo Inr \<open>go\<close> ex ok True cf es Suc.IH[of r1 t3] show ?thesis
              by (simp add: snd_snd_prepend)
          next
            case (Some p)
            with mo Inr \<open>go\<close> ex ok True cf es show ?thesis by simp
          qed
        next
          case False
          show ?thesis
          proof (cases "reject ops r1")
            case (Inl p)
            with mo Inr \<open>go\<close> ex ok False show ?thesis by simp
          next
            case rj: (Inr r2)
            with mo Inr \<open>go\<close> ex ok False Suc.IH[of r2 t2] show ?thesis
              by (simp add: snd_snd_prepend)
          qed
        qed
      qed
    qed
  qed
qed

lemma wellChecked_counts:
  "wellChecked es \<Longrightarrow> count_list es Check = count_list es (Step (Inr True))"
  by (induction es rule: wellChecked.induct) simp_all

lemma wellChecked_no_check_after:
  "wellChecked (Step (Inr False) # Check # es) = False"
  "wellChecked (Step (Inl p) # Check # es) = False"
  "wellChecked (Check # es) = False"
  by simp_all

text \<open>
  What a step of the loop and a check leave of the state under test: an action that
  does not touch it passes it through \<open>executeAction\<close> unchanged, and \<open>countingCheck\<close>
  adds one at every call.
\<close>

lemma snd_runAction: "snd (runAction t a) = snd (Func a t)"
proof -
  obtain r t1 where ra: "runAction t a = (r, t1)" by (cases "runAction t a")
  from runAction_cases[OF ra] have "snd (Func a t) = t1" by auto
  with ra show ?thesis by simp
qed

lemma attempt_preserves_sut:
  assumes "\<forall>a\<in>set catalog. \<forall>u. sut (snd (Func a u)) = sut u"
  shows "sut (snd (attempt (SampledFrom catalog) t)) = sut t"
proof (cases "catalog = []")
  case True
  then show ?thesis by (simp add: attempt_def beginGroup_def)
next
  case False
  obtain i s1 where b: "beginGroup actionLabel False (s t) = (i, s1)"
    by (cases "beginGroup actionLabel False (s t)")
  from Draw_SampledFrom[OF False, of "t\<lparr>s := s1\<rparr>" "''action''"]
  obtain a where a: "a \<in> set catalog"
    and d: "Draw (SampledFrom catalog) (t\<lparr>s := s1\<rparr>) ''action'' =
      (Inr a, t\<lparr>s := snd (drawIndex (length catalog) s1), draws := draws t + 1\<rparr>)"
    by auto
  let ?t2 = "t\<lparr>s := snd (drawIndex (length catalog) s1), draws := draws t + 1\<rparr>"
  obtain q t3 where ra: "runAction ?t2 a = (q, t3)" by (cases "runAction ?t2 a")
  with snd_runAction[of ?t2 a] have "t3 = snd (Func a ?t2)" by simp
  with assms a have st: "sut t3 = sut t" by simp
  show ?thesis
  proof (cases q)
    case (Inl p)
    with attempt_fault[OF b d] ra st show ?thesis by simp
  next
    case (Inr c)
    with attempt_eq[OF b d] ra st show ?thesis by simp
  qed
qed

lemma executeAction_from_preserves_sut:
  assumes "\<forall>a\<in>set catalog. \<forall>u. sut (snd (Func a u)) = sut u"
  shows "validActionTries - n = d \<Longrightarrow>
         sut (snd (executeAction_from n (SampledFrom catalog) t)) = sut t"
proof (induction d arbitrary: n t)
  case 0
  then show ?case by (simp add: executeAction_from_exhausted)
next
  case (Suc d)
  then have n: "n < validActionTries" and d: "validActionTries - (n + 1) = d" by auto
  obtain q u where at: "attempt (SampledFrom catalog) t = (q, u)"
    by (cases "attempt (SampledFrom catalog) t")
  with attempt_preserves_sut[OF assms, of t] have u: "sut u = sut t" by simp
  show ?case
  proof (cases q)
    case (Inl p)
    with n at u show ?thesis by (simp add: executeAction_from_unfold[of n])
  next
    case (Inr c)
    obtain invalid skipped where c: "c = (invalid, skipped)" by (cases c)
    show ?thesis
    proof (cases skipped)
      case True
      with n at Inr c u Suc.IH[OF d, of u] show ?thesis
        by (simp add: executeAction_from_unfold[of n])
    next
      case False
      with n at Inr c u show ?thesis by (simp add: executeAction_from_unfold[of n])
    qed
  qed
qed

lemma executeAction_preserves_sut:
  assumes "\<forall>a\<in>set catalog. \<forall>u. sut (snd (Func a u)) = sut u"
  shows "sut (snd (executeAction (SampledFrom catalog) t)) = sut t"
  unfolding executeAction_def
  by (rule executeAction_from_preserves_sut[OF assms, of 0 validActionTries]) simp

lemma checkAndFail_countingCheck:
  "checkAndFail (Some countingCheck) t =
     ((failOnError (t\<lparr>sut := Suc (sut t)\<rparr>), t\<lparr>sut := Suc (sut t)\<rparr>), [Check])"
  by (simp add: checkAndFail_def countingCheck_def)

lemma fst_snd_prepend: "fst (snd (prepend es x)) = fst (snd x)"
  by (cases x) simp

lemma Repeat_loop_counts_checks:
  assumes "\<forall>a\<in>set catalog. \<forall>u. sut (snd (Func a u)) = sut u"
  shows "sut (fst (snd (Repeat_loop fuel ops r (SampledFrom catalog) (Some countingCheck) t))) =
         sut t + count_list (snd (snd (Repeat_loop fuel ops r (SampledFrom catalog)
                                        (Some countingCheck) t))) Check"
proof (induction fuel arbitrary: r t)
  case 0
  then show ?case by simp
next
  case (Suc fuel)
  obtain m r1 s1 where mo: "more' ops r (s t) = (m, r1, s1)"
    by (cases "more' ops r (s t)")
  show ?case
  proof (cases m)
    case (Inl p)
    with mo show ?thesis by simp
  next
    case (Inr go)
    show ?thesis
    proof (cases go)
      case False
      with mo Inr show ?thesis by simp
    next
      case True
      obtain q t2 where ex: "executeAction (SampledFrom catalog) (t\<lparr>s := s1\<rparr>) = (q, t2)"
        by (cases "executeAction (SampledFrom catalog) (t\<lparr>s := s1\<rparr>)")
      with executeAction_preserves_sut[OF assms, of "t\<lparr>s := s1\<rparr>"] have t2: "sut t2 = sut t"
        by simp
      show ?thesis
      proof (cases q)
        case (Inl p)
        with mo Inr True ex t2 show ?thesis by simp
      next
        case ok: (Inr b)
        show ?thesis
        proof (cases b)
          case True
          let ?t3 = "t2\<lparr>sut := Suc (sut t2)\<rparr>"
          show ?thesis
          proof (cases "failOnError ?t3")
            case None
            with mo Inr \<open>go\<close> ex ok True t2 Suc.IH[of r1 ?t3] show ?thesis
              by (simp add: checkAndFail_countingCheck snd_snd_prepend fst_snd_prepend)
          next
            case (Some p)
            with mo Inr \<open>go\<close> ex ok True t2 show ?thesis
              by (simp add: checkAndFail_countingCheck)
          qed
        next
          case False
          show ?thesis
          proof (cases "reject ops r1")
            case (Inl p)
            with mo Inr \<open>go\<close> ex ok False t2 show ?thesis by simp
          next
            case rj: (Inr r2)
            with mo Inr \<open>go\<close> ex ok False t2 Suc.IH[of r2 t2] show ?thesis
              by (simp add: snd_snd_prepend fst_snd_prepend)
          qed
        qed
      qed
    qed
  qed
qed

lemma Repeat_counts_checks:
  assumes "\<forall>a\<in>set catalog. \<forall>u. sut (snd (Func a u)) = sut u"
  shows "sut (fst (snd (Repeat ops flagsSteps short fuel (SampledFrom catalog)
                          (Some countingCheck) t))) =
         sut t + count_list (snd (snd (Repeat ops flagsSteps short fuel (SampledFrom catalog)
                                        (Some countingCheck) t))) Check"
proof (cases "failOnError (t\<lparr>sut := Suc (sut t)\<rparr>)")
  case None
  with Repeat_loop_counts_checks[OF assms, of fuel ops _ "t\<lparr>sut := Suc (sut t)\<rparr>"]
  show ?thesis
    by (simp add: Repeat_def Let_def checkAndFail_countingCheck snd_snd_prepend fst_snd_prepend)
next
  case (Some p)
  then show ?thesis
    by (simp add: Repeat_def Let_def checkAndFail_countingCheck)
qed

text \<open>The steps of the concrete inputs.\<close>

lemma beginGroup_trial0: "beginGroup actionLabel False (s trial0) = (0, s trial0_begun)"
  by (simp add: beginGroup_def trial0_def trial0_begun_def)

lemma Draw_single_trial0:
  "Draw (SampledFrom [a]) (trial0\<lparr>s := s trial0_begun\<rparr>) ''action'' = (Inr a, trial0_drawn)"
  by (simp add: trial0_drawn_def trial0_begun_def trial0_def drawIndex_def)

lemma executeAction_okAction_trial0:
  "executeAction (SampledFrom [okAction]) trial0 = (Inr True, trial0_stepped)"
proof -
  have "runAction trial0_drawn okAction = (Inr (False, False), trial0_drawn)"
    by (simp add: runAction_def okAction_def failOnError_def trial0_drawn_def trial0_begun_def
          trial0_def)
  from attempt_eq[OF beginGroup_trial0 Draw_single_trial0 this]
  show ?thesis
    unfolding executeAction_def
    by (subst executeAction_from_unfold) (simp add: validActionTries_def trial0_stepped_def)
qed

lemma executeAction_costlyAction_trial0:
  "executeAction (SampledFrom [costlyAction]) trial0 = (Inr False, trial0_rejected)"
  unfolding executeAction_def
  by (subst executeAction_from_unfold)
     (simp add: attempt_costlyAction validActionTries_def trial0_rejected_def)

lemma executeAction_faultAction_trial0:
  "executeAction (SampledFrom [faultAction]) trial0 = (Inl (otherPanic ''boom''), trial0_drawn)"
proof -
  have "runAction trial0_drawn faultAction = (Inl (otherPanic ''boom''), trial0_drawn)"
    by (simp add: runAction_def runAction_recover_def faultAction_def)
  from attempt_fault[OF beginGroup_trial0 Draw_single_trial0 this]
  show ?thesis
    unfolding executeAction_def
    by (subst executeAction_from_unfold) (simp add: validActionTries_def)
qed

lemma more_budgetOps: "more' budgetOps (Suc k) st = (Inr True, k, st)"
  by (simp add: budgetOps_def)

lemma reject_budgetOps: "reject budgetOps k = Inr (k + 1)"
  by (simp add: budgetOps_def)

text \<open>
  Claim C6: when a check function is given, \<open>Repeat\<close> applies it once to the initial
  context, before any step: its panic ends the trial there, and otherwise the loop starts
  from the context the check left. In the loop, after a step on which \<open>executeAction\<close>
  returned \<open>true\<close> the check is applied once to the context of that step: its panic ends
  the trial, and otherwise the next iteration starts from the context the check left.
  After a rejected step the loop goes on from the context of the step with no check
  applied, and a panic of \<open>executeAction\<close> (as when the tries are exhausted) ends the
  trial with no check applied. Over the whole run the trace starts with one call of the
  check and then has exactly one call after every successful step and none elsewhere;
  and a check that counts its calls in the state under test has counted one more than
  the successful steps when the actions leave that state alone. This holds for every
  bound on the number of iterations looked at. Without a check function the check is
  never called.
\<close>

theorem check_once_at_start_and_after_each_successful_step:
  "(\<exists>es. snd (snd (Repeat ops flagsSteps short fuel actions (Some c) t)) = Check # es
         \<and> wellChecked es
         \<and> count_list es Check = count_list es (Step (Inr True)))
   \<and> Check \<notin> set (snd (snd (Repeat ops flagsSteps short fuel actions None t)))
   \<and> (c t = (Some p, t1)
      \<longrightarrow> Repeat ops flagsSteps short fuel actions (Some c) t = (Panicked p, t1, [Check]))
   \<and> (c t = (None, t1) \<and> failOnError t1 = None
      \<longrightarrow> Repeat ops flagsSteps short fuel actions (Some c) t =
            prepend [Check] (Repeat_loop fuel ops
               (newRepeat ops (- 1) (- 1) (repeatSteps flagsSteps short) ''Repeat'')
               actions (Some c) t1))
   \<and> (more' ops r (s t) = (Inr True, r1, s1)
        \<and> executeAction actions (t\<lparr>s := s1\<rparr>) = (Inr True, t2) \<and> c t2 = (Some p, t3)
      \<longrightarrow> Repeat_loop (Suc fuel) ops r actions (Some c) t =
            (Panicked p, t3, [Step (Inr True), Check]))
   \<and> (more' ops r (s t) = (Inr True, r1, s1)
        \<and> executeAction actions (t\<lparr>s := s1\<rparr>) = (Inr True, t2)
        \<and> c t2 = (None, t3) \<and> failOnError t3 = None
      \<longrightarrow> Repeat_loop (Suc fuel) ops r actions (Some c) t =
            prepend [Step (Inr True), Check] (Repeat_loop fuel ops r1 actions (Some c) t3))
   \<and> (more' ops r (s t) = (Inr True, r1, s1)
        \<and> executeAction actions (t\<lparr>s := s1\<rparr>) = (Inr False, t2) \<and> reject ops r1 = Inr r2
      \<longrightarrow> Repeat_loop (Suc fuel) ops r actions (Some c) t =
            prepend [Step (Inr False)] (Repeat_loop fuel ops r2 actions (Some c) t2))
   \<and> (more' ops r (s t) = (Inr True, r1, s1)
        \<and> executeAction actions (t\<lparr>s := s1\<rparr>) = (Inl p, t2)
      \<longrightarrow> Repeat_loop (Suc fuel) ops r actions (Some c) t = (Panicked p, t2, [Step (Inl p)]))
   \<and> ((\<forall>a\<in>set catalog. \<forall>u. sut (snd (Func a u)) = sut u)
      \<longrightarrow> sut (fst (snd (Repeat ops flagsSteps short fuel (SampledFrom catalog)
                            (Some countingCheck) tc))) =
          sut tc + 1 + count_list (snd (snd (Repeat ops flagsSteps short fuel
                            (SampledFrom catalog) (Some countingCheck) tc))) (Step (Inr True)))"
proof (intro conjI)
  obtain cp t1 es where cf: "checkAndFail (Some c) t = ((cp, t1), es)"
    by (cases "checkAndFail (Some c) t") auto
  with checkAndFail_Some_events[of c t] have es: "es = [Check]" by simp
  let ?r = "newRepeat ops (- 1) (- 1) (repeatSteps flagsSteps short) ''Repeat''"
  have "snd (snd (Repeat ops flagsSteps short fuel actions (Some c) t)) =
        Check # (case cp of None \<Rightarrow> snd (snd (Repeat_loop fuel ops ?r actions (Some c) t1))
                 | Some p \<Rightarrow> [])"
    using cf es by (cases cp) (simp_all add: Repeat_def Let_def snd_snd_prepend)
  moreover have "wellChecked (case cp of None \<Rightarrow> snd (snd (Repeat_loop fuel ops ?r actions (Some c) t1))
                 | Some p \<Rightarrow> [])"
    by (cases cp) (simp_all add: Repeat_loop_wellChecked)
  ultimately show "\<exists>es. snd (snd (Repeat ops flagsSteps short fuel actions (Some c) t)) = Check # es
         \<and> wellChecked es \<and> count_list es Check = count_list es (Step (Inr True))"
    using wellChecked_counts by blast
next
  obtain cp t1 es where cf: "checkAndFail None t = ((cp, t1), es)"
    by (cases "checkAndFail None t") auto
  with checkAndFail_None_events[of t] have es: "es = []" by simp
  show "Check \<notin> set (snd (snd (Repeat ops flagsSteps short fuel actions None t)))"
    using cf es Repeat_loop_no_check
    by (cases cp) (simp_all add: Repeat_def Let_def snd_snd_prepend)
next
  show "c t = (Some p, t1)
      \<longrightarrow> Repeat ops flagsSteps short fuel actions (Some c) t = (Panicked p, t1, [Check])"
    by (simp add: Repeat_def Let_def checkAndFail_def)
next
  show "c t = (None, t1) \<and> failOnError t1 = None
      \<longrightarrow> Repeat ops flagsSteps short fuel actions (Some c) t =
            prepend [Check] (Repeat_loop fuel ops
               (newRepeat ops (- 1) (- 1) (repeatSteps flagsSteps short) ''Repeat'')
               actions (Some c) t1)"
    by (simp add: Repeat_def Let_def checkAndFail_def)
next
  show "more' ops r (s t) = (Inr True, r1, s1)
        \<and> executeAction actions (t\<lparr>s := s1\<rparr>) = (Inr True, t2) \<and> c t2 = (Some p, t3)
      \<longrightarrow> Repeat_loop (Suc fuel) ops r actions (Some c) t =
            (Panicked p, t3, [Step (Inr True), Check])"
    by (simp add: checkAndFail_def)
next
  show "more' ops r (s t) = (Inr True, r1, s1)
        \<and> executeAction actions (t\<lparr>s := s1\<rparr>) = (Inr True, t2)
        \<and> c t2 = (None, t3) \<and> failOnError t3 = None
      \<longrightarrow> Repeat_loop (Suc fuel) ops r actions (Some c) t =
            prepend [Step (Inr True), Check] (Repeat_loop fuel ops r1 actions (Some c) t3)"
    by (simp add: checkAndFail_def)
next
  show "more' ops r (s t) = (Inr True, r1, s1)
        \<and> executeAction actions (t\<lparr>s := s1\<rparr>) = (Inr False, t2) \<and> reject ops r1 = Inr r2
      \<longrightarrow> Repeat_loop (Suc fuel) ops r actions (Some c) t =
            prepend [Step (Inr False)] (Repeat_loop fuel ops r2 actions (Some c) t2)"
    by simp
next
  show "more' ops r (s t) = (Inr True, r1, s1)
        \<and> executeAction actions (t\<lparr>s := s1\<rparr>) = (Inl p, t2)
      \<longrightarrow> Repeat_loop (Suc fuel) ops r actions (Some c) t = (Panicked p, t2, [Step (Inl p)])"
    by simp
next
  show "(\<forall>a\<in>set catalog. \<forall>u. sut (snd (Func a u)) = sut u)
      \<longrightarrow> sut (fst (snd (Repeat ops flagsSteps short fuel (SampledFrom catalog)
                            (Some countingCheck) tc))) =
          sut tc + 1 + count_list (snd (snd (Repeat ops flagsSteps short fuel
                            (SampledFrom catalog) (Some countingCheck) tc))) (Step (Inr True))"
  proof (rule impI)
    assume pres: "\<forall>a\<in>set catalog. \<forall>u. sut (snd (Func a u)) = sut u"
    let ?run = "Repeat ops flagsSteps short fuel (SampledFrom catalog) (Some countingCheck) tc"
    let ?r = "newRepeat ops (- 1) (- 1) (repeatSteps flagsSteps short) ''Repeat''"
    let ?t1 = "tc\<lparr>sut := Suc (sut tc)\<rparr>"
    have "\<exists>es. snd (snd ?run) = Check # es \<and> wellChecked es"
    proof (cases "failOnError ?t1")
      case None
      then have "snd (snd ?run) = Check # snd (snd (Repeat_loop fuel ops ?r (SampledFrom catalog)
                     (Some countingCheck) ?t1))"
        by (simp add: Repeat_def Let_def checkAndFail_countingCheck snd_snd_prepend)
      then show ?thesis by (simp add: Repeat_loop_wellChecked)
    next
      case (Some q)
      then have "snd (snd ?run) = [Check]"
        by (simp add: Repeat_def Let_def checkAndFail_countingCheck)
      then show ?thesis by simp
    qed
    then obtain es where es: "snd (snd ?run) = Check # es" and wc: "wellChecked es" by blast
    from wellChecked_counts[OF wc] es
    have "count_list (snd (snd ?run)) Check = 1 + count_list (snd (snd ?run)) (Step (Inr True))"
      by simp
    with Repeat_counts_checks[OF pres, of ops flagsSteps short fuel tc]
    show "sut (fst (snd ?run)) = sut tc + 1 + count_list (snd (snd ?run)) (Step (Inr True))"
      by simp
  qed
qed

theorem check_once_at_start_and_after_each_successful_step_witness:
  "Repeat budgetOps 2 False 0 (SampledFrom [okAction]) (Some failCheck) trial0 =
     (Panicked (otherPanic ''invariant broken''), trial0, [Check])
   \<and> Repeat budgetOps 2 False 0 (SampledFrom [okAction]) (Some passCheck) trial0 =
     prepend [Check] (Repeat_loop 0 budgetOps
        (newRepeat budgetOps (- 1) (- 1) (repeatSteps 2 False) ''Repeat'')
        (SampledFrom [okAction]) (Some passCheck) trial0)
   \<and> Repeat_loop (Suc 0) budgetOps (Suc 0) (SampledFrom [okAction]) (Some failCheck) trial0 =
     (Panicked (otherPanic ''invariant broken''), trial0_stepped, [Step (Inr True), Check])
   \<and> Repeat_loop (Suc 0) budgetOps (Suc 0) (SampledFrom [okAction]) (Some passCheck) trial0 =
     prepend [Step (Inr True), Check]
       (Repeat_loop 0 budgetOps 0 (SampledFrom [okAction]) (Some passCheck) trial0_stepped)
   \<and> Repeat_loop (Suc 0) budgetOps (Suc 0) (SampledFrom [costlyAction]) (Some passCheck) trial0 =
     prepend [Step (Inr False)]
       (Repeat_loop 0 budgetOps (Suc 0) (SampledFrom [costlyAction]) (Some passCheck) trial0_rejected)
   \<and> Repeat_loop (Suc 0) budgetOps (Suc 0) (SampledFrom [faultAction]) (Some passCheck) trial0 =
     (Panicked (otherPanic ''boom''), trial0_drawn, [Step (Inl (otherPanic ''boom''))])
   \<and> sut (fst (snd (Repeat budgetOps 2 False 3 (SampledFrom [tickAction])
                       (Some countingCheck) countedTrial))) = 3"
proof -
  have same: "trial0\<lparr>s := s trial0\<rparr> = trial0" by simp
  have m: "more' budgetOps (Suc 0) (s trial0) = (Inr True, 0, s trial0)"
    by (rule more_budgetOps)
  have rj: "reject budgetOps 0 = Inr (Suc 0)" by (simp add: reject_budgetOps)
  have eo: "executeAction (SampledFrom [okAction]) (trial0\<lparr>s := s trial0\<rparr>) = (Inr True, trial0_stepped)"
    by (simp only: same executeAction_okAction_trial0)
  have ec: "executeAction (SampledFrom [costlyAction]) (trial0\<lparr>s := s trial0\<rparr>) =
            (Inr False, trial0_rejected)"
    by (simp only: same executeAction_costlyAction_trial0)
  have ef: "executeAction (SampledFrom [faultAction]) (trial0\<lparr>s := s trial0\<rparr>) =
            (Inl (otherPanic ''boom''), trial0_drawn)"
    by (simp only: same executeAction_faultAction_trial0)
  have f0: "failCheck trial0 = (Some (otherPanic ''invariant broken''), trial0)"
    by (simp add: failCheck_def)
  have f1: "failCheck trial0_stepped = (Some (otherPanic ''invariant broken''), trial0_stepped)"
    by (simp add: failCheck_def)
  have p0: "passCheck trial0 = (None, trial0)" by (simp add: passCheck_def)
  have p1: "passCheck trial0_stepped = (None, trial0_stepped)" by (simp add: passCheck_def)
  have n0: "failOnError trial0 = None" by (simp add: failOnError_def trial0_def)
  have n1: "failOnError trial0_stepped = None"
    by (simp add: failOnError_def trial0_stepped_def trial0_drawn_def trial0_begun_def trial0_def)
  have pres: "\<forall>a\<in>set [tickAction]. \<forall>u. sut (snd (Func a u)) = sut u"
    by (simp add: tickAction_def)
  have w1: "Repeat budgetOps 2 False 0 (SampledFrom [okAction]) (Some failCheck) trial0 =
     (Panicked (otherPanic ''invariant broken''), trial0, [Check])
   \<and> Repeat_loop (Suc 0) budgetOps (Suc 0) (SampledFrom [okAction]) (Some failCheck) trial0 =
     (Panicked (otherPanic ''invariant broken''), trial0_stepped, [Step (Inr True), Check])"
    using check_once_at_start_and_after_each_successful_step[where ops = budgetOps
        and flagsSteps = 2 and short = False and fuel = 0 and actions = "SampledFrom [okAction]"
        and c = failCheck and t = trial0 and p = "otherPanic ''invariant broken''"
        and ?t1.0 = trial0 and r = "Suc 0" and ?r1.0 = 0 and ?s1.0 = "s trial0"
        and ?t2.0 = trial0_stepped and ?t3.0 = trial0_stepped and ?r2.0 = "Suc 0"
        and catalog = "[tickAction]" and tc = countedTrial]
      f0 f1 m eo by blast
  have w2: "Repeat budgetOps 2 False 0 (SampledFrom [okAction]) (Some passCheck) trial0 =
     prepend [Check] (Repeat_loop 0 budgetOps
        (newRepeat budgetOps (- 1) (- 1) (repeatSteps 2 False) ''Repeat'')
        (SampledFrom [okAction]) (Some passCheck) trial0)
   \<and> Repeat_loop (Suc 0) budgetOps (Suc 0) (SampledFrom [okAction]) (Some passCheck) trial0 =
     prepend [Step (Inr True), Check]
       (Repeat_loop 0 budgetOps 0 (SampledFrom [okAction]) (Some passCheck) trial0_stepped)"
    using check_once_at_start_and_after_each_successful_step[where ops = budgetOps
        and flagsSteps = 2 and short = False and fuel = 0 and actions = "SampledFrom [okAction]"
        and c = passCheck and t = trial0 and p = "otherPanic ''invariant broken''"
        and ?t1.0 = trial0 and r = "Suc 0" and ?r1.0 = 0 and ?s1.0 = "s trial0"
        and ?t2.0 = trial0_stepped and ?t3.0 = trial0_stepped and ?r2.0 = "Suc 0"
        and catalog = "[tickAction]" and tc = countedTrial]
      p0 p1 n0 n1 m eo by blast
  have w3: "Repeat_loop (Suc 0) budgetOps (Suc 0) (SampledFrom [costlyAction]) (Some passCheck) trial0 =
     prepend [Step (Inr False)]
       (Repeat_loop 0 budgetOps (Suc 0) (SampledFrom [costlyAction]) (Some passCheck) trial0_rejected)"
    using check_once_at_start_and_after_each_successful_step[where ops = budgetOps
        and flagsSteps = 2 and short = False and fuel = 0 and actions = "SampledFrom [costlyAction]"
        and c = passCheck and t = trial0 and p = "otherPanic ''invariant broken''"
        and ?t1.0 = trial0 and r = "Suc 0" and ?r1.0 = 0 and ?s1.0 = "s trial0"
        and ?t2.0 = trial0_rejected and ?t3.0 = trial0_stepped and ?r2.0 = "Suc 0"
        and catalog = "[tickAction]" and tc = countedTrial]
      m ec rj by blast
  have w4: "Repeat_loop (Suc 0) budgetOps (Suc 0) (SampledFrom [faultAction]) (Some passCheck) trial0 =
     (Panicked (otherPanic ''boom''), trial0_drawn, [Step (Inl (otherPanic ''boom''))])"
    using check_once_at_start_and_after_each_successful_step[where ops = budgetOps
        and flagsSteps = 2 and short = False and fuel = 0 and actions = "SampledFrom [faultAction]"
        and c = passCheck and t = trial0 and p = "otherPanic ''boom''"
        and ?t1.0 = trial0 and r = "Suc 0" and ?r1.0 = 0 and ?s1.0 = "s trial0"
        and ?t2.0 = trial0_drawn and ?t3.0 = trial0_stepped and ?r2.0 = "Suc 0"
        and catalog = "[tickAction]" and tc = countedTrial]
      m ef by blast
  have lg: "snd (snd (Repeat budgetOps 2 False 3 (SampledFrom [tickAction])
                       (Some countingCheck) countedTrial)) =
            [Check, Step (Inr True), Check, Step (Inr True), Check]"
    by (simp add: Repeat_def repeatSteps_def budgetOps_def checkAndFail_def failOnError_def
        executeAction_def executeAction_from_unfold[of 0] validActionTries_def attempt_def
        beginGroup_def drawIndex_def runAction_def tickAction_def countedTrial_def endGroup_def
        countingCheck_def numeral_3_eq_3)
  have "sut (fst (snd (Repeat budgetOps 2 False 3 (SampledFrom [tickAction])
                       (Some countingCheck) countedTrial))) =
        sut countedTrial + 1 + count_list (snd (snd (Repeat budgetOps 2 False 3
                       (SampledFrom [tickAction]) (Some countingCheck) countedTrial)))
                       (Step (Inr True))"
    using check_once_at_start_and_after_each_successful_step[where ops = budgetOps
        and flagsSteps = 2 and short = False and fuel = 3 and actions = "SampledFrom [okAction]"
        and c = passCheck and t = trial0 and p = "otherPanic ''boom''"
        and ?t1.0 = trial0 and r = "Suc 0" and ?r1.0 = 0 and ?s1.0 = "s trial0"
        and ?t2.0 = trial0_drawn and ?t3.0 = trial0_stepped and ?r2.0 = "Suc 0"
        and catalog = "[tickAction]" and tc = countedTrial]
      pres by blast
  then have w5: "sut (fst (snd (Repeat budgetOps 2 False 3 (SampledFrom [tickAction])
                       (Some countingCheck) countedTrial))) = 3"
    by (simp only: lg) (simp add: countedTrial_def)
  from w1 w2 w3 w4 w5 show ?thesis by blast
qed

subsection \<open>Two runs\<close>

text \<open>
  With the budget controller, two steps and a catalog whose only action completes, the
  run finishes after two successful steps, each followed by its check. With a catalog
  whose only action turns invalid after a draw, every step is rejected and given back to
  the budget, and the loop is still going when the bound of three iterations is reached.
\<close>

lemma Repeat_example_finished:
  "fst (Repeat budgetOps 2 False 3 (SampledFrom [okAction]) (Some (\<lambda>t. (None, t))) trial0) = Finished
   \<and> snd (snd (Repeat budgetOps 2 False 3 (SampledFrom [okAction]) (Some (\<lambda>t. (None, t))) trial0))
       = [Check, Step (Inr True), Check, Step (Inr True), Check]"
  by (simp add: Repeat_def repeatSteps_def budgetOps_def checkAndFail_def failOnError_def
        executeAction_def executeAction_from_unfold[of 0] validActionTries_def attempt_def
        beginGroup_def drawIndex_def runAction_def okAction_def trial0_def endGroup_def
        numeral_3_eq_3)

lemma Repeat_example_rejected:
  "fst (Repeat budgetOps 1 False 3 (SampledFrom [costlyAction]) (Some (\<lambda>t. (None, t))) trial0) = OutOfFuel
   \<and> snd (snd (Repeat budgetOps 1 False 3 (SampledFrom [costlyAction]) (Some (\<lambda>t. (None, t))) trial0))
       = [Check, Step (Inr False), Step (Inr False), Step (Inr False)]"
  by (simp add: Repeat_def repeatSteps_def budgetOps_def checkAndFail_def failOnError_def
        executeAction_def executeAction_from_unfold[of 0] validActionTries_def attempt_def
        beginGroup_def drawIndex_def runAction_def runAction_recover_def costlyAction_def
        trial0_def endGroup_def numeral_3_eq_3)

section \<open>Properties of \<open>StateMachineActions\<close>\<close>

lemma collectActions_eq:
  "collectActions ms acc = acc @ map methodAction (filter isActionMethod ms)"
proof (induction ms arbitrary: acc)
  case Nil
  then show ?case by simp
next
  case (Cons m ms)
  show ?case
  proof (cases "mValue m")
    case (ActionMethod f)
    with Cons.IH[of "acc @ [\<lparr>Name = mName m, Func = f\<rparr>]"] show ?thesis
      by (simp add: methodAction_def)
  next
    case (OtherMethod sig)
    with Cons.IH[of acc] show ?thesis by simp
  qed
qed

lemma filter_isActionMethod_nth:
  "k < length (filter isActionMethod ms) \<Longrightarrow>
   mValue (filter isActionMethod ms ! k) = ActionMethod (Func (methodAction (filter isActionMethod ms ! k)))"
proof -
  assume "k < length (filter isActionMethod ms)"
  then have "filter isActionMethod ms ! k \<in> set (filter isActionMethod ms)" by (rule nth_mem)
  then have "isActionMethod (filter isActionMethod ms ! k)" by simp
  then show ?thesis
    by (cases "mValue (filter isActionMethod ms ! k)") (simp_all add: methodAction_def)
qed

text \<open>
  Claim C10: when at least one method passes the type assertion to \<open>func(*T)\<close>,
  \<open>StateMachineActions\<close> does not fail and returns \<open>SampledFrom\<close> a catalog that holds
  exactly the methods that pass it, in the reflected order, each under its method name
  and with the method value as \<open>Func\<close>; the methods of any other signature are left out.
\<close>

theorem discovery_keeps_action_methods_in_order:
  "(\<exists>m\<in>set ms. isActionMethod m) \<longrightarrow>
     (\<exists>catalog. StateMachineActions tyName ms = Inr (SampledFrom catalog)
        \<and> map Name catalog = map mName (filter isActionMethod ms)
        \<and> length catalog = length (filter isActionMethod ms)
        \<and> (\<forall>k < length catalog.
              mValue (filter isActionMethod ms ! k) = ActionMethod (Func (catalog ! k))))"
proof (rule impI)
  assume ex: "\<exists>m\<in>set ms. isActionMethod m"
  let ?c = "map methodAction (filter isActionMethod ms)"
  from ex have ne: "filter isActionMethod ms \<noteq> []"
    by (simp add: filter_empty_conv)
  then have "StateMachineActions tyName ms = Inr (SampledFrom ?c)"
    by (simp add: StateMachineActions_def collectActions_eq assertf_def)
  moreover have "map Name ?c = map mName (filter isActionMethod ms)"
    by (simp add: methodAction_def comp_def)
  moreover have "\<forall>k < length ?c.
      mValue (filter isActionMethod ms ! k) = ActionMethod (Func (?c ! k))"
    by (simp add: filter_isActionMethod_nth)
  ultimately show "\<exists>catalog. StateMachineActions tyName ms = Inr (SampledFrom catalog)
        \<and> map Name catalog = map mName (filter isActionMethod ms)
        \<and> length catalog = length (filter isActionMethod ms)
        \<and> (\<forall>k < length catalog.
              mValue (filter isActionMethod ms ! k) = ActionMethod (Func (catalog ! k)))"
    by (intro exI[of _ ?c]) simp
qed

theorem discovery_keeps_action_methods_in_order_witness:
  "isActionMethod (exampleMethods ! 1)
   \<and> (\<exists>catalog. StateMachineActions ''queueMachine'' exampleMethods = Inr (SampledFrom catalog)
        \<and> map Name catalog = [''Get'', ''Put''])"
proof -
  have h: "\<exists>m\<in>set exampleMethods. isActionMethod m"
    by (simp add: exampleMethods_def)
  have f: "map mName (filter isActionMethod exampleMethods) = [''Get'', ''Put'']"
    by (simp add: exampleMethods_def)
  from discovery_keeps_action_methods_in_order[of exampleMethods "''queueMachine''"] h
  obtain catalog where
    "StateMachineActions ''queueMachine'' exampleMethods = Inr (SampledFrom catalog)"
    "map Name catalog = map mName (filter isActionMethod exampleMethods)"
    by blast
  moreover have "isActionMethod (exampleMethods ! 1)"
    by (simp add: exampleMethods_def)
  ultimately show ?thesis using f by auto
qed

text \<open>
  Claim C8: when no method passes the type assertion, \<open>StateMachineActions\<close> fails with
  the panic of its assertion, which names the type; it takes no trial context, so no
  step has run; and in no case does it return the generator of an empty catalog.
\<close>

theorem no_actions_is_configuration_error:
  "((\<forall>m\<in>set ms. \<not> isActionMethod m) \<longrightarrow>
      StateMachineActions tyName ms =
        Inl (otherPanic (''state machine of type '' @ tyName @ '' has no actions specified'')))
   \<and> StateMachineActions tyName ms \<noteq> Inr (SampledFrom [])"
proof (rule conjI)
  show "(\<forall>m\<in>set ms. \<not> isActionMethod m) \<longrightarrow>
      StateMachineActions tyName ms =
        Inl (otherPanic (''state machine of type '' @ tyName @ '' has no actions specified''))"
  proof (rule impI)
    assume "\<forall>m\<in>set ms. \<not> isActionMethod m"
    then have "filter isActionMethod ms = []" by (simp add: filter_empty_conv)
    then show "StateMachineActions tyName ms =
        Inl (otherPanic (''state machine of type '' @ tyName @ '' has no actions specified''))"
      by (simp add: StateMachineActions_def collectActions_eq assertf_def)
  qed
next
  show "StateMachineActions tyName ms \<noteq> Inr (SampledFrom [])"
    by (cases "filter isActionMethod ms = []")
       (simp_all add: StateMachineActions_def collectActions_eq assertf_def)
qed

theorem no_actions_is_configuration_error_witness:
  "filter isActionMethod noActionMethods = []
   \<and> StateMachineActions ''counter'' noActionMethods =
        Inl (otherPanic ''state machine of type counter has no actions specified'')"
proof -
  have h: "\<forall>m\<in>set noActionMethods. \<not> isActionMethod m"
    by (simp add: noActionMethods_def)
  have e: "filter isActionMethod noActionMethods = []"
    by (simp add: noActionMethods_def)
  from h e no_actions_is_configuration_error[of noActionMethods "''counter''"]
  show ?thesis by simp
qed

end
